theory Spec2Isabelle
  imports Complex_Main "HOL-Library.Char_ord"
begin

section \<open>Minesweeper (bot/seasons/evergreen/minesweeper.py)\<close>

text \<open>
  A shallow embedding of the game logic of the Minesweeper cog: the coordinate converter,
  board generation, the flood fill, the win check and the four commands acting on the
  store of running games.

  Exceptions are values: every function that can raise returns \<open>error + 'a\<close>, with
  \<open>Inl\<close> the exception.
\<close>

datatype error = ArgumentParsingError | ValueError | IndexError | KeyError

subsection \<open>CoordinateConverter.convert\<close>

text \<open>
  A token is a \<open>string\<close>; a \<open>char\<close> is read as the Python character with the same code
  point (below 256). On these characters \<open>str.lower\<close> maps A-Z and the accented capitals
  of Latin-1 to their small letters and keeps the length, \<open>str.isdigit\<close> holds of 0-9 and
  of the superscripts two, three and one, and \<open>int\<close> accepts the one-character strings 0-9
  only.
\<close>

definition ord :: "char \<Rightarrow> int" where
  "ord c = int (of_char c)"

definition lower_char :: "char \<Rightarrow> char" where
  "lower_char c =
     (let n = (of_char c :: nat)
      in if (65 \<le> n \<and> n \<le> 90) \<or> (192 \<le> n \<and> n \<le> 222 \<and> n \<noteq> 215)
         then char_of (n + 32) else c)"

definition lower :: "string \<Rightarrow> string" where
  "lower s = map lower_char s"

definition isdigit :: "char \<Rightarrow> bool" where
  "isdigit c =
     (let n = (of_char c :: nat)
      in (48 \<le> n \<and> n \<le> 57) \<or> n = 178 \<or> n = 179 \<or> n = 185)"

definition int_of_char :: "char \<Rightarrow> error + int" where
  "int_of_char c =
     (let n = (of_char c :: nat)
      in if 48 \<le> n \<and> n \<le> 57 then Inr (int n - 48) else Inl ValueError)"

definition sorted_str :: "string \<Rightarrow> string" where
  "sorted_str s = sort_key (of_char :: char \<Rightarrow> nat) s"

text \<open>
  \<open>digit, letter = sorted(coordinate.lower())\<close> unpacks a list of exactly two characters;
  any other length raises \<open>ValueError\<close>. The test that follows is on \<open>letter\<close>, as in the
  source.
\<close>

definition convert :: "string \<Rightarrow> error + (int \<times> int)" where
  "convert coordinate =
     (if \<not> (2 \<le> length coordinate \<and> length coordinate \<le> 3) then Inl ArgumentParsingError
      else
        (case sorted_str (lower coordinate) of
           [digit, letter] \<Rightarrow>
             if \<not> isdigit letter then Inl ArgumentParsingError
             else
               (case int_of_char digit of
                  Inl e \<Rightarrow> Inl e
                | Inr d \<Rightarrow>
                    (let x = ord (lower_char letter) - 97;
                         y = d - 1
                     in if (\<not> (0 \<le> x \<and> x \<le> 9)) \<or> (\<not> (0 \<le> y \<and> y \<le> 9))
                        then Inl ArgumentParsingError
                        else Inr (x, y)))
         | _ \<Rightarrow> Inl ValueError))"

subsection \<open>Boards\<close>

text \<open>
  \<open>GameBoard = List[List[Union[str, int]]]\<close>: a cell holds one of the strings
  \<open>"bomb"\<close>, \<open>"number"\<close>, \<open>"hidden"\<close>, \<open>"flag"\<close>, or an integer. A board is a list of rows,
  read as \<open>board[y][x]\<close>.
\<close>

datatype cell = Bomb | NumberPlaceholder | Hidden | Flag | Num int

type_synonym grid = "cell list list"

text \<open>
  List indexing as Python does it: an index from \<open>-len\<close> to \<open>-1\<close> counts from the end,
  anything else out of range raises \<open>IndexError\<close>.
\<close>

definition py_index :: "'a list \<Rightarrow> int \<Rightarrow> error + 'a" where
  "py_index xs i =
     (let n = int (length xs)
      in if 0 \<le> i \<and> i < n then Inr (xs ! nat i)
         else if - n \<le> i \<and> i < 0 then Inr (xs ! nat (n + i))
         else Inl IndexError)"

definition py_assign :: "'a list \<Rightarrow> int \<Rightarrow> 'a \<Rightarrow> error + 'a list" where
  "py_assign xs i v =
     (let n = int (length xs)
      in if 0 \<le> i \<and> i < n then Inr (xs[nat i := v])
         else if - n \<le> i \<and> i < 0 then Inr (xs[nat (n + i) := v])
         else Inl IndexError)"

text \<open>\<open>g[y][x]\<close> and \<open>g[y][x] = v\<close>.\<close>

definition get_cell :: "grid \<Rightarrow> int \<Rightarrow> int \<Rightarrow> error + cell" where
  "get_cell g x y =
     (case py_index g y of
        Inl e \<Rightarrow> Inl e
      | Inr row \<Rightarrow> py_index row x)"

definition set_cell :: "grid \<Rightarrow> int \<Rightarrow> int \<Rightarrow> cell \<Rightarrow> error + grid" where
  "set_cell g x y v =
     (case py_index g y of
        Inl e \<Rightarrow> Inl e
      | Inr row \<Rightarrow>
          (case py_assign row x v of
             Inl e \<Rightarrow> Inl e
           | Inr row' \<Rightarrow> py_assign g y row'))"

subsection \<open>Minesweeper.get_neighbours\<close>

definition get_neighbours :: "int \<Rightarrow> int \<Rightarrow> (int \<times> int) list" where
  "get_neighbours x y =
     [(x', y'). x' \<leftarrow> [x - 1, x, x + 1], y' \<leftarrow> [y - 1, y, y + 1],
                x' \<noteq> - 1 \<and> x' \<noteq> 10 \<and> y' \<noteq> - 1 \<and> y' \<noteq> 10]"

subsection \<open>Minesweeper.generate_board\<close>

text \<open>
  The calls of \<open>random()\<close> are a parameter: \<open>random k\<close> is the value of the \<open>k\<close>-th call
  (from 0). The comprehension draws row by row, so the cell in row \<open>y\<close>, column \<open>x\<close> gets
  draw \<open>10 * y + x\<close>. Floats are read as the reals they denote; \<open>\<le>\<close> on them is exact.
\<close>

definition initial_board :: "real \<Rightarrow> (nat \<Rightarrow> real) \<Rightarrow> grid" where
  "initial_board bomb_chance random =
     map (\<lambda>row. map (\<lambda>col. if random (10 * row + col) \<le> bomb_chance
                              then Bomb else NumberPlaceholder) [0..<10]) [0..<10]"

text \<open>The loop \<open>for x_, y_ in self.get_neighbours(x, y)\<close> with its counter \<open>bombs\<close>.\<close>

fun count_bombs :: "grid \<Rightarrow> (int \<times> int) list \<Rightarrow> int \<Rightarrow> error + int" where
  "count_bombs board [] bombs = Inr bombs"
| "count_bombs board ((x', y') # rest) bombs =
     (case get_cell board x' y' of
        Inl e \<Rightarrow> Inl e
      | Inr c \<Rightarrow> count_bombs board rest (if c = Bomb then bombs + 1 else bombs))"

text \<open>The loop \<open>for x, cell in enumerate(row)\<close> of row \<open>y\<close>; the board is updated in place.\<close>

fun number_row :: "grid \<Rightarrow> int \<Rightarrow> int list \<Rightarrow> error + grid" where
  "number_row board y [] = Inr board"
| "number_row board y (x # xs) =
     (case get_cell board x y of
        Inl e \<Rightarrow> Inl e
      | Inr c \<Rightarrow>
          if c = NumberPlaceholder then
            (case count_bombs board (get_neighbours x y) 0 of
               Inl e \<Rightarrow> Inl e
             | Inr bombs \<Rightarrow>
                 (case set_cell board x y (Num bombs) of
                    Inl e \<Rightarrow> Inl e
                  | Inr board' \<Rightarrow> number_row board' y xs))
          else number_row board y xs)"

text \<open>The loop \<open>for y, row in enumerate(board)\<close>.\<close>

fun number_rows :: "grid \<Rightarrow> int list \<Rightarrow> error + grid" where
  "number_rows board [] = Inr board"
| "number_rows board (y # ys) =
     (case number_row board y [0..9] of
        Inl e \<Rightarrow> Inl e
      | Inr board' \<Rightarrow> number_rows board' ys)"

definition generate_board :: "real \<Rightarrow> (nat \<Rightarrow> real) \<Rightarrow> error + grid" where
  "generate_board bomb_chance random = number_rows (initial_board bomb_chance random) [0..9]"

subsection \<open>Lists as objects\<close>

text \<open>
  A board is a Python list, passed and stored by reference: \<open>game.revealed = game.board\<close>
  makes two fields name one list, and \<open>revealed[y][x] = v\<close> changes the list for every
  holder of the reference. So the grids live in a heap, a map from references to grids, and
  the functions that take \<open>revealed\<close> and \<open>board\<close> take references. (The rows of a grid are
  never shared between two grids, so one level of references is enough.)
\<close>

type_synonym addr = nat

type_synonym heap = "addr \<Rightarrow> grid"

subsection \<open>Minesweeper.reveal_zeros\<close>

text \<open>The number of cells of a grid that hold \<open>"hidden"\<close>: the measure of the recursion.\<close>

definition hidden_in_row :: "cell list \<Rightarrow> nat" where
  "hidden_in_row row = length (filter (\<lambda>c. c = Hidden) row)"

definition hidden_count :: "grid \<Rightarrow> nat" where
  "hidden_count g = sum_list (map hidden_in_row g)"

text \<open>
  \<open>reveal_zeros_loop h revealed board ns\<close> is the loop \<open>for x_, y_ in ...\<close> of \<open>reveal_zeros\<close>
  over the neighbours \<open>ns\<close> still to visit; the recursive call of \<open>reveal_zeros\<close> on a zero
  cell is the inner call on that cell's neighbours, and the loop goes on in the heap that
  call returns. \<open>board[y_][x_]\<close> is read once: the assignment stores that very value, so the
  test \<open>board[y_][x_] == 0\<close> reads it again even when both references name one list.
\<close>

function reveal_zeros_loop :: "heap \<Rightarrow> addr \<Rightarrow> addr \<Rightarrow> (int \<times> int) list \<Rightarrow> error + heap" where
  "reveal_zeros_loop h revealed board [] = Inr h"
| "reveal_zeros_loop h revealed board ((x', y') # rest) =
     (case get_cell (h revealed) x' y' of
        Inl e \<Rightarrow> Inl e
      | Inr c \<Rightarrow>
          if c \<noteq> Hidden then reveal_zeros_loop h revealed board rest
          else
            (case get_cell (h board) x' y' of
               Inl e \<Rightarrow> Inl e
             | Inr v \<Rightarrow>
                 (case set_cell (h revealed) x' y' v of
                    Inl e \<Rightarrow> Inl e
                  | Inr r' \<Rightarrow>
                      if v = Num 0 then
                        (case reveal_zeros_loop (h(revealed := r')) revealed board
                                (get_neighbours x' y') of
                           Inl e \<Rightarrow> Inl e
                         | Inr h' \<Rightarrow> reveal_zeros_loop h' revealed board rest)
                      else reveal_zeros_loop (h(revealed := r')) revealed board rest)))"
  by pat_completeness auto

text \<open>
  Termination: a recursive call is made only after a hidden cell has received the value 0,
  and no call ever raises the number of hidden cells.
\<close>

lemma py_index_Inr:
  "py_index xs i = Inr v \<Longrightarrow>
     \<exists>k<length xs. v = xs ! k \<and> (\<forall>w. py_assign xs i w = Inr (xs[k := w]))"
proof -
  assume a: "py_index xs i = Inr v"
  show ?thesis
  proof (cases "0 \<le> i")
    case True
    with a have "nat i < length xs" "v = xs ! nat i" "\<forall>w. py_assign xs i w = Inr (xs[nat i := w])"
      by (auto simp: py_index_def py_assign_def Let_def split: if_splits)
    then show ?thesis by blast
  next
    case False
    with a have "nat (int (length xs) + i) < length xs" "v = xs ! nat (int (length xs) + i)"
      "\<forall>w. py_assign xs i w = Inr (xs[nat (int (length xs) + i) := w])"
      by (auto simp: py_index_def py_assign_def Let_def split: if_splits)
    then show ?thesis by blast
  qed
qed

lemma hidden_in_row_update:
  "k < length row \<Longrightarrow> row ! k = Hidden \<Longrightarrow>
     hidden_in_row (row[k := v]) = (if v = Hidden then hidden_in_row row else hidden_in_row row - 1)
     \<and> 0 < hidden_in_row row"
proof (induction row arbitrary: k)
  case Nil
  then show ?case by simp
next
  case (Cons c row)
  then show ?case
    by (cases k) (auto simp: hidden_in_row_def)
qed

lemma hidden_count_update:
  "j < length g \<Longrightarrow> hidden_count (g[j := r]) = hidden_count g + hidden_in_row r - hidden_in_row (g ! j)"
  by (simp add: hidden_count_def map_update sum_list_update)

lemma hidden_in_row_le: "j < length g \<Longrightarrow> hidden_in_row (g ! j) \<le> hidden_count g"
  unfolding hidden_count_def
  using elem_le_sum_list [of j "map hidden_in_row g"] by simp

lemma set_cell_hidden:
  assumes "get_cell g x y = Inr Hidden" "set_cell g x y v = Inr g'"
  shows "hidden_count g' = (if v = Hidden then hidden_count g else hidden_count g - 1) \<and> 0 < hidden_count g"
proof -
  from assms(1) obtain row where row: "py_index g y = Inr row" "py_index row x = Inr Hidden"
    by (auto simp: get_cell_def split: sum.splits)
  from py_index_Inr [OF row(1)] obtain j where
    j: "j < length g" "row = g ! j" "\<And>w. py_assign g y w = Inr (g[j := w])"
    by blast
  from py_index_Inr [OF row(2)] obtain k where
    k: "k < length row" "row ! k = Hidden" "\<And>w. py_assign row x w = Inr (row[k := w])"
    by metis
  from assms(2) row j k have g': "g' = g[j := row[k := v]]"
    by (simp add: set_cell_def)
  from hidden_in_row_update [OF k(1,2), of v] hidden_in_row_le [OF j(1)] j(2)
  show ?thesis
    unfolding g' hidden_count_update [OF j(1)] by auto
qed


lemma reveal_zeros_loop_hidden_le:
  "reveal_zeros_loop_dom (h, revealed, board, ns) \<Longrightarrow>
     reveal_zeros_loop h revealed board ns = Inr h' \<Longrightarrow>
     hidden_count (h' revealed) \<le> hidden_count (h revealed)"
proof (induction h revealed board ns arbitrary: h' rule: reveal_zeros_loop.pinduct)
  case (1 h revealed board)
  then show ?case
    by (simp add: reveal_zeros_loop.psimps)
next
  case (2 h revealed board x' y' rest)
  note dom = "2.hyps"
  note run = "2.prems"
  show ?case
  proof (cases "get_cell (h revealed) x' y'")
    case (Inl e)
    with run dom show ?thesis
      by (simp add: reveal_zeros_loop.psimps)
  next
    case (Inr c)
    note c = this
    show ?thesis
    proof (cases "c = Hidden")
      case False
      with run dom c "2.IH"(1) show ?thesis
        by (simp add: reveal_zeros_loop.psimps)
    next
      case True
      note hid = this
      from run dom c hid obtain v r' where
        v: "get_cell (h board) x' y' = Inr v" and r': "set_cell (h revealed) x' y' v = Inr r'"
        by (auto simp: reveal_zeros_loop.psimps split: sum.splits)
      from set_cell_hidden [OF _ r'] c hid have le: "hidden_count r' \<le> hidden_count (h revealed)"
        by (auto split: if_splits)
      show ?thesis
      proof (cases "v = Num 0")
        case True
        from run dom c hid v r' True obtain h1 where
          h1: "reveal_zeros_loop (h(revealed := r')) revealed board (get_neighbours x' y') = Inr h1"
          and h': "reveal_zeros_loop h1 revealed board rest = Inr h'"
          by (auto simp: reveal_zeros_loop.psimps split: sum.splits)
        from "2.IH"(2) [OF c _ v r' True h1] hid
        have "hidden_count (h1 revealed) \<le> hidden_count r'"
          by simp
        moreover from "2.IH"(3) [OF c _ v r' True h1 h'] hid
        have "hidden_count (h' revealed) \<le> hidden_count (h1 revealed)"
          by simp
        ultimately show ?thesis
          using le by simp
      next
        case False
        from run dom c hid v r' False have
          "reveal_zeros_loop (h(revealed := r')) revealed board rest = Inr h'"
          by (simp add: reveal_zeros_loop.psimps)
        from "2.IH"(4) [OF c _ v r' False this] hid le show ?thesis
          by simp
      qed
    qed
  qed
qed

lemma reveal_zeros_loop_dom_all: "All reveal_zeros_loop_dom"
proof (rule "reveal_zeros_loop.termination"
    [of "measures [\<lambda>(h, revealed, board, ns). hidden_count (h revealed),
                   \<lambda>(h, revealed, board, ns). length ns]"], goal_cases)
  case 1
  show ?case by simp
next
  case (2 h revealed board x' y' rest c)
  then show ?case by simp
next
  case (3 h revealed board x' y' rest c v r')
  with set_cell_hidden [of "h revealed" x' y' v r'] show ?case
    by auto
next
  case (4 h revealed board x' y' rest c v r' h1)
  with set_cell_hidden [of "h revealed" x' y' v r']
    reveal_zeros_loop_hidden_le [of "h(revealed := r')" revealed board "get_neighbours x' y'" h1]
  show ?case
    by auto
next
  case (5 h revealed board x' y' rest c v r')
  with set_cell_hidden [of "h revealed" x' y' v r'] show ?case
    by (auto split: if_splits)
qed

termination reveal_zeros_loop
  by (rule reveal_zeros_loop_dom_all)

definition reveal_zeros :: "heap \<Rightarrow> addr \<Rightarrow> addr \<Rightarrow> int \<Rightarrow> int \<Rightarrow> error + heap" where
  "reveal_zeros h revealed board x y = reveal_zeros_loop h revealed board (get_neighbours x y)"

subsection \<open>Games and the store\<close>

text \<open>
  The dataclass \<open>Game\<close>: \<open>board\<close> and \<open>revealed\<close> are references to lists. The message
  handles \<open>dm_msg\<close> and \<open>chat_msg\<close> belong to Discord and are left out; what a command shows
  is part of its response below. \<open>self.games\<close> maps the author's id to the game; \<open>fresh\<close> is
  the next unused reference (a new list is distinct from every list that exists).
\<close>

record game =
  board_ref :: addr
  revealed_ref :: addr
  activated_on_server :: bool

record state =
  games :: "nat \<rightharpoonup> game"
  heap :: heap
  fresh :: addr

text \<open>
  \<open>reveal_one\<close> returns \<open>True\<close> when the game has ended, after calling \<open>lost\<close> or \<open>won\<close>;
  the outcome records which: \<open>Lost\<close> and \<open>Won\<close> are \<open>True\<close> after \<open>lost\<close> and after \<open>won\<close>,
  \<open>Continue\<close> is \<open>False\<close>. A command answers by messages only; its response here is what
  it says, with the grid that \<open>update_boards\<close> renders for the author.
\<close>

datatype outcome = Continue | Lost | Won

datatype response =
  Started | GameAlreadyActive | Flagged grid | Outcome grid outcome | Ended grid

text \<open>\<open>update_boards\<close> renders \<open>game.revealed\<close>; the result is the grid it renders.\<close>

definition update_boards :: "state \<Rightarrow> nat \<Rightarrow> error + grid" where
  "update_boards s author =
     (case games s author of
        None \<Rightarrow> Inl KeyError
      | Some game \<Rightarrow> Inr (heap s (revealed_ref game)))"

text \<open>
  \<open>lost\<close>, \<open>won\<close> and \<open>end_command\<close> all start with \<open>game = self.games[ctx.author.id]\<close> and
  \<open>game.revealed = game.board\<close>.
\<close>

definition disclose :: "state \<Rightarrow> nat \<Rightarrow> error + state" where
  "disclose s author =
     (case games s author of
        None \<Rightarrow> Inl KeyError
      | Some game \<Rightarrow>
          Inr (s\<lparr>games := (games s)(author \<mapsto> game\<lparr>revealed_ref := board_ref game\<rparr>)\<rparr>))"

definition lost :: "state \<Rightarrow> nat \<Rightarrow> error + state" where
  "lost s author = disclose s author"

definition won :: "state \<Rightarrow> nat \<Rightarrow> error + state" where
  "won s author = disclose s author"

subsection \<open>Minesweeper.check_if_won\<close>

text \<open>The \<open>any(...)\<close> over \<open>for x in range(10) for y in range(10)\<close>, stopping at the first hit.\<close>

fun any_unrevealed :: "grid \<Rightarrow> grid \<Rightarrow> (int \<times> int) list \<Rightarrow> error + bool" where
  "any_unrevealed revealed board [] = Inr False"
| "any_unrevealed revealed board ((x, y) # rest) =
     (case get_cell revealed x y of
        Inl e \<Rightarrow> Inl e
      | Inr c \<Rightarrow>
          if c = Hidden \<or> c = Flag then
            (case get_cell board x y of
               Inl e \<Rightarrow> Inl e
             | Inr v \<Rightarrow> if v \<noteq> Bomb then Inr True else any_unrevealed revealed board rest)
          else any_unrevealed revealed board rest)"

definition check_if_won :: "state \<Rightarrow> nat \<Rightarrow> addr \<Rightarrow> addr \<Rightarrow> error + (outcome \<times> state)" where
  "check_if_won s author revealed board =
     (case any_unrevealed (heap s revealed) (heap s board)
             [(x, y). x \<leftarrow> [0..9], y \<leftarrow> [0..9]] of
        Inl e \<Rightarrow> Inl e
      | Inr unrevealed \<Rightarrow>
          if unrevealed then Inr (Continue, s)
          else
            (case won s author of
               Inl e \<Rightarrow> Inl e
             | Inr s' \<Rightarrow> Inr (Won, s')))"

subsection \<open>Minesweeper.reveal_one and reveal_command\<close>

definition reveal_one :: "state \<Rightarrow> nat \<Rightarrow> addr \<Rightarrow> addr \<Rightarrow> int \<Rightarrow> int \<Rightarrow> error + (outcome \<times> state)" where
  "reveal_one s author revealed board x y =
     (case get_cell (heap s board) x y of
        Inl e \<Rightarrow> Inl e
      | Inr v \<Rightarrow>
          (case set_cell (heap s revealed) x y v of
             Inl e \<Rightarrow> Inl e
           | Inr r' \<Rightarrow>
               (let s1 = s\<lparr>heap := (heap s)(revealed := r')\<rparr>
                in if v = Bomb then
                     (case lost s1 author of
                        Inl e \<Rightarrow> Inl e
                      | Inr s2 \<Rightarrow> Inr (Lost, s2))
                   else if v = Num 0 then
                     (case reveal_zeros (heap s1) revealed board x y of
                        Inl e \<Rightarrow> Inl e
                      | Inr h' \<Rightarrow> check_if_won (s1\<lparr>heap := h'\<rparr>) author revealed board)
                   else check_if_won s1 author revealed board)))"

fun reveal_loop :: "state \<Rightarrow> nat \<Rightarrow> addr \<Rightarrow> addr \<Rightarrow> (int \<times> int) list \<Rightarrow> error + (response \<times> state)" where
  "reveal_loop s author revealed board [] =
     (case update_boards s author of
        Inl e \<Rightarrow> Inl e
      | Inr shown \<Rightarrow> Inr (Outcome shown Continue, s))"
| "reveal_loop s author revealed board ((x, y) # rest) =
     (case reveal_one s author revealed board x y of
        Inl e \<Rightarrow> Inl e
      | Inr (out, s') \<Rightarrow>
          if out \<noteq> Continue then
            (case update_boards s' author of
               Inl e \<Rightarrow> Inl e
             | Inr shown \<Rightarrow> Inr (Outcome shown out, s'\<lparr>games := (games s')(author := None)\<rparr>))
          else reveal_loop s' author revealed board rest)"

definition reveal_command :: "state \<Rightarrow> nat \<Rightarrow> (int \<times> int) list \<Rightarrow> error + (response \<times> state)" where
  "reveal_command s author coordinates =
     (case games s author of
        None \<Rightarrow> Inl KeyError
      | Some game \<Rightarrow> reveal_loop s author (revealed_ref game) (board_ref game) coordinates)"

subsection \<open>Minesweeper.flag_command\<close>

fun flag_loop :: "grid \<Rightarrow> (int \<times> int) list \<Rightarrow> error + grid" where
  "flag_loop board [] = Inr board"
| "flag_loop board ((x, y) # rest) =
     (case get_cell board x y of
        Inl e \<Rightarrow> Inl e
      | Inr c \<Rightarrow>
          if c = Hidden then
            (case set_cell board x y Flag of
               Inl e \<Rightarrow> Inl e
             | Inr board' \<Rightarrow> flag_loop board' rest)
          else flag_loop board rest)"

definition flag_command :: "state \<Rightarrow> nat \<Rightarrow> (int \<times> int) list \<Rightarrow> error + (response \<times> state)" where
  "flag_command s author coordinates =
     (case games s author of
        None \<Rightarrow> Inl KeyError
      | Some game \<Rightarrow>
          (case flag_loop (heap s (revealed_ref game)) coordinates of
             Inl e \<Rightarrow> Inl e
           | Inr board' \<Rightarrow>
               (let s' = s\<lparr>heap := (heap s)(revealed_ref game := board')\<rparr>
                in case update_boards s' author of
                     Inl e \<Rightarrow> Inl e
                   | Inr shown \<Rightarrow> Inr (Flagged shown, s'))))"

subsection \<open>Minesweeper.end_command and start_command\<close>

definition end_command :: "state \<Rightarrow> nat \<Rightarrow> error + (response \<times> state)" where
  "end_command s author =
     (case disclose s author of
        Inl e \<Rightarrow> Inl e
      | Inr s' \<Rightarrow>
          (case update_boards s' author of
             Inl e \<Rightarrow> Inl e
           | Inr shown \<Rightarrow> Inr (Ended shown, s'\<lparr>games := (games s')(author := None)\<rparr>)))"

definition start_command :: "state \<Rightarrow> nat \<Rightarrow> bool \<Rightarrow> real \<Rightarrow> (nat \<Rightarrow> real) \<Rightarrow> error + (response \<times> state)" where
  "start_command s author guild bomb_chance random =
     (if games s author \<noteq> None then Inr (GameAlreadyActive, s)
      else
        (case generate_board bomb_chance random of
           Inl e \<Rightarrow> Inl e
         | Inr board \<Rightarrow>
             (let revealed_board = replicate 10 (replicate 10 Hidden);
                  b = fresh s;
                  r = fresh s + 1
              in Inr (Started,
                      s\<lparr>games := (games s)(author \<mapsto>
                           \<lparr>board_ref = b, revealed_ref = r, activated_on_server = guild\<rparr>),
                        heap := (heap s)(b := board, r := revealed_board),
                        fresh := fresh s + 2\<rparr>))))"

text \<open>The cog as \<open>__init__\<close> leaves it.\<close>

definition no_games :: state where
  "no_games = \<lparr>games = Map.empty, heap = (\<lambda>a. []), fresh = 0\<rparr>"


subsection \<open>Vocabulary of the properties\<close>

definition grid10 :: "grid \<Rightarrow> bool" where
  "grid10 g \<longleftrightarrow> length g = 10 \<and> list_all (\<lambda>row. length row = 10) g"

definition on_board :: "int \<times> int \<Rightarrow> bool" where
  "on_board p \<longleftrightarrow> 0 \<le> fst p \<and> fst p < 10 \<and> 0 \<le> snd p \<and> snd p < 10"

definition cell_at :: "grid \<Rightarrow> int \<times> int \<Rightarrow> cell" where
  "cell_at g p = g ! nat (snd p) ! nat (fst p)"

definition cell_upd :: "grid \<Rightarrow> int \<times> int \<Rightarrow> cell \<Rightarrow> grid" where
  "cell_upd g p v = g[nat (snd p) := (g ! nat (snd p))[nat (fst p) := v]]"

definition neighbour_bombs :: "grid \<Rightarrow> int \<times> int \<Rightarrow> int" where
  "neighbour_bombs g p =
     int (length (filter (\<lambda>q. cell_at g q = Bomb) (get_neighbours (fst p) (snd p))))"

text \<open>
  The state of the numbering loops: the bombs of the initial board \<open>b0\<close> are in place, the
  cells of \<open>D\<close> carry their count and the other cells still hold the placeholder.
\<close>

definition numbered :: "grid \<Rightarrow> (int \<times> int) set \<Rightarrow> grid \<Rightarrow> bool" where
  "numbered b0 D g \<longleftrightarrow>
     grid10 g \<and>
     (\<forall>p. on_board p \<longrightarrow>
        cell_at g p =
          (if cell_at b0 p = Bomb then Bomb
           else if p \<in> D then Num (neighbour_bombs b0 p) else NumberPlaceholder))"

text \<open>
  The count the specification asks for: \<open>adjacent p q\<close> holds of two distinct cells that
  touch by a side or a corner, and \<open>adjacent_bombs g p\<close> counts the cells of the 10 by 10
  board that are adjacent to \<open>p\<close> and hold a bomb in \<open>g\<close>. \<open>neighbour_bombs\<close> above is the
  count the code makes over \<open>get_neighbours\<close>.
\<close>

definition adjacent :: "int \<times> int \<Rightarrow> int \<times> int \<Rightarrow> bool" where
  "adjacent p q \<longleftrightarrow> q \<noteq> p \<and> \<bar>fst q - fst p\<bar> \<le> 1 \<and> \<bar>snd q - snd p\<bar> \<le> 1"

definition board_cells :: "(int \<times> int) list" where
  "board_cells = [(x, y). y \<leftarrow> [0..9], x \<leftarrow> [0..9]]"

definition adjacent_bombs :: "grid \<Rightarrow> int \<times> int \<Rightarrow> int" where
  "adjacent_bombs g p =
     int (length (filter (\<lambda>q. adjacent p q \<and> cell_at g q = Bomb) board_cells))"

text \<open>
  The cells the fill can reach from the list \<open>ns\<close> of cells to visit: the hidden cells of
  \<open>ns\<close>, and the hidden neighbours of a reached cell whose board value is 0.
\<close>

inductive_set reach :: "grid \<Rightarrow> grid \<Rightarrow> (int \<times> int) list \<Rightarrow> (int \<times> int) set"
  for g :: grid and b :: grid and ns :: "(int \<times> int) list" where
  base: "p \<in> set ns \<Longrightarrow> on_board p \<Longrightarrow> cell_at g p = Hidden \<Longrightarrow> p \<in> reach g b ns"
| step: "q \<in> reach g b ns \<Longrightarrow> cell_at b q = Num 0 \<Longrightarrow>
         p \<in> set (get_neighbours (fst q) (snd q)) \<Longrightarrow> cell_at g p = Hidden \<Longrightarrow> p \<in> reach g b ns"

text \<open>
  What a run of the loop from grid \<open>g\<close> to grid \<open>g'\<close> has done: a cell is unchanged or was
  hidden and now holds its board value; the changed cells are reached ones; the hidden
  cells of \<open>ns\<close> hold their board value; and so do the hidden neighbours of a cell that was
  hidden and now holds 0.
\<close>

definition fill_post :: "grid \<Rightarrow> grid \<Rightarrow> (int \<times> int) list \<Rightarrow> grid \<Rightarrow> bool" where
  "fill_post g b ns g' \<longleftrightarrow>
     grid10 g' \<and>
     (\<forall>p. on_board p \<longrightarrow>
        cell_at g' p = cell_at g p \<or> (cell_at g p = Hidden \<and> cell_at g' p = cell_at b p)) \<and>
     (\<forall>p. on_board p \<longrightarrow> cell_at g' p \<noteq> cell_at g p \<longrightarrow> p \<in> reach g b ns) \<and>
     (\<forall>p \<in> set ns. cell_at g p = Hidden \<longrightarrow> cell_at g' p = cell_at b p) \<and>
     (\<forall>q p. on_board q \<longrightarrow> cell_at g q = Hidden \<longrightarrow> cell_at g' q = Num 0 \<longrightarrow>
        p \<in> set (get_neighbours (fst q) (snd q)) \<longrightarrow> cell_at g p = Hidden \<longrightarrow>
        cell_at g' p = cell_at b p)"

text \<open>
  A cell of the revealed grid is revealed when it holds neither \<open>"hidden"\<close> nor \<open>"flag"\<close>;
  \<open>all_safe_revealed revealed board\<close> says that every cell of the board that is not a bomb
  is revealed.
\<close>

definition is_revealed :: "cell \<Rightarrow> bool" where
  "is_revealed c \<longleftrightarrow> c \<noteq> Hidden \<and> c \<noteq> Flag"

definition all_safe_revealed :: "grid \<Rightarrow> grid \<Rightarrow> bool" where
  "all_safe_revealed revealed board \<longleftrightarrow>
     list_all (\<lambda>p. cell_at board p = Bomb \<or> is_revealed (cell_at revealed p)) board_cells"

text \<open>
  A store with one game, of author 7, as \<open>start_command\<close> leaves it for a board without
  bombs: list 0 is the board, list 1 the revealed grid.
\<close>

definition quiet_game :: state where
  "quiet_game =
     \<lparr>games = [7 \<mapsto> \<lparr>board_ref = 0, revealed_ref = 1, activated_on_server = False\<rparr>],
      heap = (\<lambda>a. if a = 0 then replicate 10 (replicate 10 (Num 0))
                  else if a = 1 then replicate 10 (replicate 10 Hidden) else []),
      fresh = 2\<rparr>"

text \<open>
  The region the specification describes for a reveal at \<open>start\<close>: the start cell, and
  every hidden cell of the board adjacent (by a side or a corner) to a cell of the region
  whose board value is 0. A cell with another value is in the region when a zero cell next
  to it is, and nothing spreads from it; a cell that is not hidden is not entered.
\<close>

inductive_set fill_region :: "grid \<Rightarrow> grid \<Rightarrow> int \<times> int \<Rightarrow> (int \<times> int) set"
  for revealed :: grid and board :: grid and start :: "int \<times> int" where
  start: "start \<in> fill_region revealed board start"
| spread: "q \<in> fill_region revealed board start \<Longrightarrow> cell_at board q = Num 0 \<Longrightarrow>
           on_board p \<Longrightarrow> adjacent q p \<Longrightarrow> cell_at revealed p = Hidden \<Longrightarrow>
           p \<in> fill_region revealed board start"

text \<open>
  An active game: the author has a record, and its two references name two distinct lists,
  each a 10 by 10 grid (what \<open>start_command\<close> stores, and what every command keeps).
\<close>

definition active :: "state \<Rightarrow> nat \<Rightarrow> game \<Rightarrow> bool" where
  "active s author game \<longleftrightarrow>
     games s author = Some game \<and> revealed_ref game \<noteq> board_ref game \<and>
     grid10 (heap s (revealed_ref game)) \<and> grid10 (heap s (board_ref game))"

text \<open>
  What a batch of reveals at the cells \<open>cs\<close> may do to a cell of the revealed grid: leave
  it, or give it its board value if it was hidden or is one of \<open>cs\<close>.
\<close>

definition revealed_by :: "(int \<times> int) list \<Rightarrow> grid \<Rightarrow> grid \<Rightarrow> grid \<Rightarrow> bool" where
  "revealed_by cs g b g' \<longleftrightarrow>
     (\<forall>q. on_board q \<longrightarrow>
        cell_at g' q = cell_at g q \<or>
        ((cell_at g q = Hidden \<or> q \<in> set cs) \<and> cell_at g' q = cell_at b q))"

text \<open>A store with one game of author 7 whose board holds bombs only (bomb chance 1).\<close>

definition mined_game :: state where
  "mined_game =
     \<lparr>games = [7 \<mapsto> \<lparr>board_ref = 0, revealed_ref = 1, activated_on_server = False\<rparr>],
      heap = (\<lambda>a. if a = 0 then replicate 10 (replicate 10 Bomb)
                  else if a = 1 then replicate 10 (replicate 10 Hidden) else []),
      fresh = 2\<rparr>"

text \<open>A board as \<open>generate_board\<close> makes it holds bombs and numbers: no cell is hidden or a flag.\<close>

definition board_ok :: "grid \<Rightarrow> bool" where
  "board_ok b \<longleftrightarrow> list_all (\<lambda>p. is_revealed (cell_at b p)) board_cells"

text \<open>What a batch of flags at the cells \<open>cs\<close> may do to a cell: leave it, or flag it if it was hidden.\<close>

definition flagged_by :: "(int \<times> int) list \<Rightarrow> grid \<Rightarrow> grid \<Rightarrow> bool" where
  "flagged_by cs g g' \<longleftrightarrow>
     (\<forall>q. on_board q \<longrightarrow>
        cell_at g' q = cell_at g q \<or>
        (cell_at g q = Hidden \<and> q \<in> set cs \<and> cell_at g' q = Flag))"

text \<open>
  The commands a player can send; the coordinates of \<open>flag\<close> and \<open>reveal\<close> are what the
  converter returns, so they lie on the board. \<open>run\<close> handles a sequence of commands, each
  as one step; a command that raises is dropped and the bot goes on (the only exception
  met here is the \<open>KeyError\<close> of a player without a game, raised before any change).
\<close>

datatype command =
  Start nat bool real "nat \<Rightarrow> real"
| Flag_cells nat "(int \<times> int) list"
| Reveal_cells nat "(int \<times> int) list"
| End_game nat

fun handle :: "state \<Rightarrow> command \<Rightarrow> error + (response \<times> state)" where
  "handle s (Start author guild bomb_chance random) = start_command s author guild bomb_chance random"
| "handle s (Flag_cells author coordinates) = flag_command s author coordinates"
| "handle s (Reveal_cells author coordinates) = reveal_command s author coordinates"
| "handle s (End_game author) = end_command s author"

fun converted :: "command \<Rightarrow> bool" where
  "converted (Flag_cells author coordinates) = list_all on_board coordinates"
| "converted (Reveal_cells author coordinates) = list_all on_board coordinates"
| "converted c = True"

fun run :: "state \<Rightarrow> command list \<Rightarrow> state" where
  "run s [] = s"
| "run s (c # cs) =
     (case handle s c of
        Inl e \<Rightarrow> run s cs
      | Inr (r, s') \<Rightarrow> run s' cs)"

text \<open>
  The invariant of the store: every record is an active game whose lists were allocated,
  and the revealed grid of one game is no list of another game.
\<close>

definition store_ok :: "state \<Rightarrow> bool" where
  "store_ok s \<longleftrightarrow>
     (\<forall>a g. games s a = Some g \<longrightarrow>
        active s a g \<and> board_ref g < fresh s \<and> revealed_ref g < fresh s) \<and>
     (\<forall>a a' g g'. games s a = Some g \<longrightarrow> games s a' = Some g' \<longrightarrow> a \<noteq> a' \<longrightarrow>
        revealed_ref g' \<noteq> board_ref g \<and> revealed_ref g' \<noteq> revealed_ref g)"

text \<open>A list that no command writes to: it was allocated and is no game's revealed grid.\<close>

definition settled :: "state \<Rightarrow> addr \<Rightarrow> bool" where
  "settled s a \<longleftrightarrow> a < fresh s \<and> (\<forall>p g. games s p = Some g \<longrightarrow> revealed_ref g \<noteq> a)"

(*MORE_DEFS*)

section \<open>Properties\<close>

subsection \<open>Coordinate parsing\<close>

lemma isdigit_ord_lower: "isdigit c \<Longrightarrow> \<not> (0 \<le> ord (lower_char c) - 97 \<and> ord (lower_char c) - 97 \<le> 9)"
  by (auto simp: isdigit_def lower_char_def ord_def Let_def)

text \<open>No token at all is converted: the digit test is applied to the letter.\<close>

lemma convert_never_returns: "convert tok \<noteq> Inr p"
proof
  assume ok: "convert tok = Inr p"
  then obtain letter where "isdigit letter"
    and "0 \<le> ord (lower_char letter) - 97 \<and> ord (lower_char letter) - 97 \<le> 9"
    by (auto simp: convert_def Let_def split: list.splits sum.splits if_splits)
  then show False
    using isdigit_ord_lower by blast
qed

text \<open>
  Claim C1 (the tokens a1, 1a and A1 parse to (0,0), j10 and 10j to (9,9)): on the code
  the two-character tokens are rejected with \<open>ArgumentParsingError\<close>, because the larger
  of the two sorted characters is the letter and is not a digit, and the three-character
  tokens raise \<open>ValueError\<close> when the sorted list is unpacked into two names.
\<close>

theorem convert_rejects_valid_tokens:
  "convert ''a1'' = Inl ArgumentParsingError \<and>
   convert ''1a'' = Inl ArgumentParsingError \<and>
   convert ''A1'' = Inl ArgumentParsingError \<and>
   convert ''j10'' = Inl ValueError \<and>
   convert ''10j'' = Inl ValueError"
  by (simp add: convert_def sorted_str_def lower_def lower_char_def isdigit_def Let_def)

theorem convert_rejects_valid_tokens_witness:
  "convert ''a1'' \<noteq> Inr (0, 0) \<and> convert ''j10'' \<noteq> Inr (9, 9)"
  using convert_rejects_valid_tokens by simp

subsection \<open>Grids\<close>

lemma grid10_row: "grid10 g \<Longrightarrow> n < 10 \<Longrightarrow> length (g ! n) = 10"
  by (simp add: grid10_def list_all_length)

lemma grid10_length: "grid10 g \<Longrightarrow> length g = 10"
  by (simp add: grid10_def)

lemma on_board_nat: "on_board (x, y) \<Longrightarrow> nat x < 10 \<and> nat y < 10 \<and> 0 \<le> x \<and> 0 \<le> y \<and> x < 10 \<and> y < 10"
  unfolding on_board_def by auto

lemma get_cell_on_board:
  assumes "grid10 g" "on_board (x, y)"
  shows "get_cell g x y = Inr (cell_at g (x, y))"
proof -
  from assms have "length g = 10" "length (g ! nat y) = 10" "0 \<le> x" "0 \<le> y" "x < 10" "y < 10"
    using on_board_nat grid10_row grid10_length by auto
  then show ?thesis
    by (simp add: get_cell_def py_index_def cell_at_def)
qed

lemma set_cell_on_board:
  assumes "grid10 g" "on_board (x, y)"
  shows "set_cell g x y v = Inr (cell_upd g (x, y) v)"
proof -
  from assms have "length g = 10" "length (g ! nat y) = 10" "0 \<le> x" "0 \<le> y" "x < 10" "y < 10"
    using on_board_nat grid10_row grid10_length by auto
  then show ?thesis
    by (simp add: set_cell_def py_index_def py_assign_def cell_upd_def)
qed

lemma grid10_cell_upd:
  assumes "grid10 g"
  shows "grid10 (cell_upd g p v)"
proof (cases "nat (snd p) < length g")
  case True
  with assms show ?thesis
    by (auto simp: grid10_def cell_upd_def list_all_length nth_list_update)
next
  case False
  then have "length g \<le> nat (snd p)" by simp
  with assms show ?thesis
    by (simp add: cell_upd_def list_update_beyond)
qed

lemma cell_at_cell_upd:
  assumes "grid10 g" "on_board p" "on_board q"
  shows "cell_at (cell_upd g p v) q = (if q = p then v else cell_at g q)"
proof -
  obtain x y where p: "p = (x, y)" by (cases p)
  obtain x' y' where q: "q = (x', y')" by (cases q)
  from assms p q have l: "length g = 10" "length (g ! nat y) = 10" "nat y < 10" "nat x < 10"
     "nat y' < 10" "nat x' < 10" "0 \<le> x" "0 \<le> y" "0 \<le> x'" "0 \<le> y'"
    using on_board_nat grid10_row grid10_length by auto
  show ?thesis
  proof (cases "y' = y")
    case True
    from l have "nat x = nat x' \<longleftrightarrow> x' = x" by auto
    with l True show ?thesis
      by (simp add: p q cell_at_def cell_upd_def nth_list_update)
  next
    case False
    with l have "nat y' \<noteq> nat y" by simp
    with l False show ?thesis
      by (simp add: p q cell_at_def cell_upd_def)
  qed
qed

lemma on_board_neighbours:
  "on_board (x, y) \<Longrightarrow> q \<in> set (get_neighbours x y) \<Longrightarrow> on_board q"
  by (auto simp: get_neighbours_def on_board_def)

lemma distinct_get_neighbours: "distinct (get_neighbours x y)"
  by (simp add: get_neighbours_def)

lemma count_bombs_on_board:
  "grid10 g \<Longrightarrow> \<forall>q \<in> set ns. on_board q \<Longrightarrow>
     count_bombs g ns k = Inr (k + int (length (filter (\<lambda>q. cell_at g q = Bomb) ns)))"
proof (induction ns arbitrary: k)
  case Nil
  then show ?case by simp
next
  case (Cons q ns)
  obtain x y where q: "q = (x, y)" by (cases q)
  from Cons.prems have "get_cell g x y = Inr (cell_at g (x, y))"
    by (simp add: q get_cell_on_board)
  with Cons show ?case
    by (simp add: q)
qed

lemma count_bombs_neighbours:
  "grid10 g \<Longrightarrow> on_board (x, y) \<Longrightarrow>
     count_bombs g (get_neighbours x y) 0 = Inr (neighbour_bombs g (x, y))"
  using count_bombs_on_board [of g "get_neighbours x y" 0] on_board_neighbours [of x y]
  by (simp add: neighbour_bombs_def)

lemma numbered_cell:
  "numbered b0 D g \<Longrightarrow> on_board p \<Longrightarrow>
     cell_at g p =
       (if cell_at b0 p = Bomb then Bomb
        else if p \<in> D then Num (neighbour_bombs b0 p) else NumberPlaceholder)"
  unfolding numbered_def by blast

lemma numbered_grid10: "numbered b0 D g \<Longrightarrow> grid10 g"
  unfolding numbered_def by blast

lemma numbered_bombs:
  "numbered b0 D g \<Longrightarrow> on_board q \<Longrightarrow> cell_at g q = Bomb \<longleftrightarrow> cell_at b0 q = Bomb"
  by (simp add: numbered_cell)

lemma numbered_neighbour_bombs:
  assumes "numbered b0 D g" "on_board p"
  shows "neighbour_bombs g p = neighbour_bombs b0 p"
proof -
  have "filter (\<lambda>q. cell_at g q = Bomb) (get_neighbours (fst p) (snd p)) =
        filter (\<lambda>q. cell_at b0 q = Bomb) (get_neighbours (fst p) (snd p))"
    using assms on_board_neighbours [of "fst p" "snd p"] numbered_bombs [OF assms(1)]
    by (intro filter_cong) auto
  then show ?thesis
    by (simp add: neighbour_bombs_def)
qed

lemma numbered_step:
  assumes "numbered b0 D g" "on_board p" "cell_at g p = NumberPlaceholder"
  shows "numbered b0 (insert p D) (cell_upd g p (Num (neighbour_bombs g p)))"
proof -
  from assms have nb: "cell_at b0 p \<noteq> Bomb"
    using numbered_bombs by fastforce
  from assms show ?thesis
    unfolding numbered_def
    by (auto simp: grid10_cell_upd cell_at_cell_upd nb numbered_neighbour_bombs [OF assms(1)])
qed

lemma numbered_skip:
  assumes "numbered b0 D g" "on_board p" "cell_at g p \<noteq> NumberPlaceholder"
  shows "numbered b0 (insert p D) g"
  using assms unfolding numbered_def by (auto split: if_splits)

lemma number_row_numbered:
  "numbered b0 D g \<Longrightarrow> 0 \<le> y \<Longrightarrow> y < 10 \<Longrightarrow> \<forall>x \<in> set xs. 0 \<le> x \<and> x < 10 \<Longrightarrow>
     \<exists>g'. number_row g y xs = Inr g' \<and> numbered b0 (D \<union> (\<lambda>x. (x, y)) ` set xs) g'"
proof (induction xs arbitrary: g D)
  case Nil
  then show ?case by simp
next
  case (Cons x xs)
  from Cons.prems have ob: "on_board (x, y)"
    by (simp add: on_board_def)
  from Cons.prems have g10: "grid10 g"
    by (simp add: numbered_grid10)
  have rd: "get_cell g x y = Inr (cell_at g (x, y))"
    using g10 ob by (rule get_cell_on_board)
  have un: "insert (x, y) D \<union> (\<lambda>x. (x, y)) ` set xs = D \<union> (\<lambda>x. (x, y)) ` set (x # xs)"
    by auto
  show ?case
  proof (cases "cell_at g (x, y) = NumberPlaceholder")
    case True
    with Cons.prems ob have "numbered b0 (insert (x, y) D) (cell_upd g (x, y) (Num (neighbour_bombs g (x, y))))"
      by (simp add: numbered_step)
    from Cons.IH [OF this] Cons.prems obtain g' where
      "number_row (cell_upd g (x, y) (Num (neighbour_bombs g (x, y)))) y xs = Inr g'"
      "numbered b0 (insert (x, y) D \<union> (\<lambda>x. (x, y)) ` set xs) g'"
      by auto
    with True rd g10 ob show ?thesis
      by (simp add: count_bombs_neighbours set_cell_on_board un del: Un_insert_left Un_insert_right)
  next
    case False
    with Cons.prems ob have "numbered b0 (insert (x, y) D) g"
      by (simp add: numbered_skip)
    from Cons.IH [OF this] Cons.prems obtain g' where
      "number_row g y xs = Inr g'"
      "numbered b0 (insert (x, y) D \<union> (\<lambda>x. (x, y)) ` set xs) g'"
      by auto
    with False rd show ?thesis
      by (simp add: un del: Un_insert_left Un_insert_right)
  qed
qed

lemma number_rows_numbered:
  "numbered b0 D g \<Longrightarrow> \<forall>y \<in> set ys. 0 \<le> y \<and> y < 10 \<Longrightarrow>
     \<exists>g'. number_rows g ys = Inr g' \<and> numbered b0 (D \<union> {0..9} \<times> set ys) g'"
proof (induction ys arbitrary: g D)
  case Nil
  then show ?case by simp
next
  case (Cons y ys)
  have "\<forall>x \<in> set [0..9]. 0 \<le> x \<and> x < (10::int)"
    by simp
  with Cons.prems number_row_numbered [of b0 D g y "[0..9]"] obtain g1 where
    g1: "number_row g y [0..9] = Inr g1" "numbered b0 (D \<union> (\<lambda>x. (x, y)) ` set [0..9]) g1"
    by auto
  from Cons.IH [OF g1(2)] Cons.prems obtain g' where
    g': "number_rows g1 ys = Inr g'"
        "numbered b0 (D \<union> (\<lambda>x. (x, y)) ` set [0..9] \<union> {0..9} \<times> set ys) g'"
    by auto
  have "D \<union> (\<lambda>x. (x, y)) ` set [0..9] \<union> {0..9} \<times> set ys = D \<union> {0..9} \<times> set (y # ys)"
    by auto
  with g1 g' show ?case
    by simp
qed

lemma grid10_initial_board: "grid10 (initial_board bomb_chance random)"
  by (simp add: grid10_def initial_board_def list_all_length)

lemma cell_at_initial_board:
  "on_board (x, y) \<Longrightarrow>
     cell_at (initial_board bomb_chance random) (x, y) =
       (if random (10 * nat y + nat x) \<le> bomb_chance then Bomb else NumberPlaceholder)"
  using on_board_nat [of x y] by (simp add: cell_at_def initial_board_def)

lemma numbered_initial_board:
  "numbered (initial_board bomb_chance random) {} (initial_board bomb_chance random)"
  unfolding numbered_def
  by (auto simp: grid10_initial_board cell_at_initial_board)

lemma generate_board_numbered:
  "\<exists>board. generate_board bomb_chance random = Inr board \<and>
     numbered (initial_board bomb_chance random) {p. on_board p} board"
proof -
  have "\<forall>y \<in> set [0..9]. 0 \<le> y \<and> y < (10::int)"
    by simp
  with number_rows_numbered [OF numbered_initial_board, of "[0..9]" bomb_chance random]
  obtain board where b: "generate_board bomb_chance random = Inr board"
    "numbered (initial_board bomb_chance random) ({} \<union> {0..9} \<times> set [0..9]) board"
    by (auto simp: generate_board_def)
  have "{} \<union> {0..9} \<times> set [0..9] = {p. on_board p}"
    by (auto simp: on_board_def)
  with b show ?thesis
    by simp
qed

lemma set_board_cells: "set board_cells = {p. on_board p}"
  by (auto simp: board_cells_def on_board_def image_iff simp del: upto_rec_numeral)

lemma in_comprehension:
  "(a, b) \<in> set [(x', y'). x' \<leftarrow> xs, y' \<leftarrow> ys, P x' y'] \<longleftrightarrow> a \<in> set xs \<and> b \<in> set ys \<and> P a b"
  by auto

lemma in_get_neighbours:
  "(a, b) \<in> set (get_neighbours x y) \<longleftrightarrow>
     (a = x - 1 \<or> a = x \<or> a = x + 1) \<and> (b = y - 1 \<or> b = y \<or> b = y + 1) \<and>
     a \<noteq> - 1 \<and> a \<noteq> 10 \<and> b \<noteq> - 1 \<and> b \<noteq> 10"
  unfolding get_neighbours_def in_comprehension by simp

lemma in_get_neighbours_on_board:
  assumes "on_board (x, y)"
  shows "(a, b) \<in> set (get_neighbours x y) \<longleftrightarrow>
     on_board (a, b) \<and> \<bar>a - x\<bar> \<le> 1 \<and> \<bar>b - y\<bar> \<le> 1"
proof -
  from assms have r: "0 \<le> x" "x < 10" "0 \<le> y" "y < 10"
    by (simp_all add: on_board_def)
  have xs: "(a = x - 1 \<or> a = x \<or> a = x + 1) \<and> a \<noteq> - 1 \<and> a \<noteq> 10 \<longleftrightarrow> 0 \<le> a \<and> a < 10 \<and> \<bar>a - x\<bar> \<le> 1"
    using r(1,2) by arith
  have ys: "(b = y - 1 \<or> b = y \<or> b = y + 1) \<and> b \<noteq> - 1 \<and> b \<noteq> 10 \<longleftrightarrow> 0 \<le> b \<and> b < 10 \<and> \<bar>b - y\<bar> \<le> 1"
    using r(3,4) by arith
  have "(a, b) \<in> set (get_neighbours x y) \<longleftrightarrow>
     ((a = x - 1 \<or> a = x \<or> a = x + 1) \<and> a \<noteq> - 1 \<and> a \<noteq> 10) \<and>
     ((b = y - 1 \<or> b = y \<or> b = y + 1) \<and> b \<noteq> - 1 \<and> b \<noteq> 10)"
    unfolding in_get_neighbours by blast
  then show ?thesis
    unfolding xs ys on_board_def by auto
qed

lemma distinct_board_cells: "distinct board_cells"
  unfolding board_cells_def
  by (intro distinct_concat) (auto simp: distinct_map inj_on_def simp del: upto_rec_numeral)

lemma neighbour_bombs_adjacent:
  assumes "on_board p" "cell_at g p \<noteq> Bomb"
  shows "neighbour_bombs g p = adjacent_bombs g p"
proof -
  obtain x y where p: "p = (x, y)" by (cases p)
  have "q \<in> {q. cell_at g q = Bomb} \<inter> set (get_neighbours x y) \<longleftrightarrow>
        q \<in> {q. adjacent p q \<and> cell_at g q = Bomb} \<inter> set board_cells" for q
  proof (cases q)
    case (Pair a b)
    show ?thesis
      using assms unfolding Pair p set_board_cells
      by (auto simp: in_get_neighbours_on_board adjacent_def)
  qed
  then have "{q. cell_at g q = Bomb} \<inter> set (get_neighbours x y) =
        {q. adjacent p q \<and> cell_at g q = Bomb} \<inter> set board_cells"
    by blast
  then show ?thesis
    by (simp add: neighbour_bombs_def adjacent_bombs_def p distinct_length_filter
        distinct_get_neighbours distinct_board_cells)
qed

text \<open>
  Claim C2: for every bomb chance and every sequence of draws, \<open>generate_board\<close> returns a
  10 by 10 board whose bombs are the cells whose draw is at most the bomb chance, and every
  other cell holds the number of bombs among the cells of the board that touch it (by a
  side or a corner, the cell itself not counted).
\<close>

theorem generate_board_counts:
  "\<exists>board. generate_board bomb_chance random = Inr board \<and> grid10 board \<and>
     (\<forall>x y. on_board (x, y) \<longrightarrow>
        (cell_at board (x, y) = Bomb \<longleftrightarrow> random (10 * nat y + nat x) \<le> bomb_chance) \<and>
        (cell_at board (x, y) \<noteq> Bomb \<longrightarrow>
           cell_at board (x, y) = Num (adjacent_bombs board (x, y))))"
proof -
  obtain board where b: "generate_board bomb_chance random = Inr board"
    "numbered (initial_board bomb_chance random) {p. on_board p} board"
    using generate_board_numbered by blast
  have "cell_at board (x, y) = Bomb \<longleftrightarrow> random (10 * nat y + nat x) \<le> bomb_chance"
    if "on_board (x, y)" for x y
    using that numbered_bombs [OF b(2) that] by (simp add: cell_at_initial_board)
  moreover have "cell_at board (x, y) = Num (adjacent_bombs board (x, y))"
    if "on_board (x, y)" "cell_at board (x, y) \<noteq> Bomb" for x y
  proof -
    from that have "cell_at board (x, y) = Num (neighbour_bombs (initial_board bomb_chance random) (x, y))"
      using numbered_cell [OF b(2) that(1)] by (simp split: if_splits)
    also have "neighbour_bombs (initial_board bomb_chance random) (x, y) = neighbour_bombs board (x, y)"
      using numbered_neighbour_bombs [OF b(2) that(1)] by simp
    also have "\<dots> = adjacent_bombs board (x, y)"
      using that by (rule neighbour_bombs_adjacent)
    finally show ?thesis .
  qed
  ultimately show ?thesis
    using b(1) numbered_grid10 [OF b(2)] by blast
qed

theorem generate_board_counts_witness:
  "\<exists>board. generate_board (1 / 5) (\<lambda>k. if k = 1 then 0 else 1) = Inr board \<and>
     on_board (0, 0) \<and> cell_at board (0, 0) \<noteq> Bomb \<and> cell_at board (1, 0) = Bomb \<and>
     cell_at board (0, 0) = Num (adjacent_bombs board (0, 0))"
proof -
  obtain board where b: "generate_board (1 / 5) (\<lambda>k. if k = 1 then 0 else 1) = Inr board"
    and c: "\<And>x y. on_board (x, y) \<Longrightarrow>
        (cell_at board (x, y) = Bomb \<longleftrightarrow> (if 10 * nat y + nat x = 1 then 0 else 1) \<le> (1 / 5 :: real))"
    and d: "\<And>x y. on_board (x, y) \<Longrightarrow> cell_at board (x, y) \<noteq> Bomb \<Longrightarrow>
           cell_at board (x, y) = Num (adjacent_bombs board (x, y))"
    using generate_board_counts [of "1 / 5" "\<lambda>k. if k = 1 then 0 else 1"] by blast
  have o: "on_board (0, 0)" "on_board (1, 0)"
    by (simp_all add: on_board_def)
  from c [OF o(1)] have n: "cell_at board (0, 0) \<noteq> Bomb"
    by simp
  from c [OF o(2)] have m: "cell_at board (1, 0) = Bomb"
    by simp
  from b o(1) n m d [OF o(1) n] show ?thesis
    by blast
qed

subsection \<open>Flood fill: the loop of reveal_zeros\<close>

lemma reach_on_board: "p \<in> reach g b ns \<Longrightarrow> on_board p"
proof (induction rule: reach.induct)
  case (base p)
  then show ?case by simp
next
  case (step q p)
  then show ?case
    using on_board_neighbours [of "fst q" "snd q" p] by simp
qed

lemma reach_hidden: "p \<in> reach g b ns \<Longrightarrow> cell_at g p = Hidden"
  by (induction rule: reach.induct) simp_all

lemma reach_mono:
  assumes "p \<in> reach g2 b ns2"
    and "\<And>q. on_board q \<Longrightarrow> cell_at g2 q = Hidden \<Longrightarrow> cell_at g q = Hidden"
    and "\<And>q. q \<in> set ns2 \<Longrightarrow> on_board q \<Longrightarrow> cell_at g2 q = Hidden \<Longrightarrow> q \<in> reach g b ns"
  shows "p \<in> reach g b ns"
  using assms(1)
proof (induction rule: reach.induct)
  case (base p)
  then show ?case
    using assms(3) by blast
next
  case (step q p)
  have "on_board p"
    using reach_on_board [OF step.hyps(1)] on_board_neighbours [of "fst q" "snd q" p] step.hyps(3)
    by simp
  then have "cell_at g p = Hidden"
    using assms(2) step.hyps(4) by blast
  with step show ?case
    by (blast intro: reach.step)
qed

lemma reveal_zeros_loop_Cons:
  assumes "grid10 (h revealed)" "grid10 (h board)" "on_board (x', y')"
  shows "reveal_zeros_loop h revealed board ((x', y') # rest) =
    (if cell_at (h revealed) (x', y') \<noteq> Hidden then reveal_zeros_loop h revealed board rest
     else if cell_at (h board) (x', y') = Num 0 then
       (case reveal_zeros_loop
               (h(revealed := cell_upd (h revealed) (x', y') (cell_at (h board) (x', y'))))
               revealed board (get_neighbours x' y') of
          Inl e \<Rightarrow> Inl e
        | Inr h' \<Rightarrow> reveal_zeros_loop h' revealed board rest)
     else reveal_zeros_loop
            (h(revealed := cell_upd (h revealed) (x', y') (cell_at (h board) (x', y'))))
            revealed board rest)"
  using assms by (simp add: get_cell_on_board set_cell_on_board)

lemma fill_postI:
  assumes "grid10 g'"
    and "\<And>p. on_board p \<Longrightarrow>
        cell_at g' p = cell_at g p \<or> (cell_at g p = Hidden \<and> cell_at g' p = cell_at b p)"
    and "\<And>p. on_board p \<Longrightarrow> cell_at g' p \<noteq> cell_at g p \<Longrightarrow> p \<in> reach g b ns"
    and "\<And>p. p \<in> set ns \<Longrightarrow> cell_at g p = Hidden \<Longrightarrow> cell_at g' p = cell_at b p"
    and "\<And>q p. on_board q \<Longrightarrow> cell_at g q = Hidden \<Longrightarrow> cell_at g' q = Num 0 \<Longrightarrow>
        p \<in> set (get_neighbours (fst q) (snd q)) \<Longrightarrow> cell_at g p = Hidden \<Longrightarrow>
        cell_at g' p = cell_at b p"
  shows "fill_post g b ns g'"
  unfolding fill_post_def using assms by blast

lemma fill_post_grid10: "fill_post g b ns g' \<Longrightarrow> grid10 g'"
  unfolding fill_post_def by blast

lemma fill_post_frame:
  "fill_post g b ns g' \<Longrightarrow> on_board p \<Longrightarrow>
     cell_at g' p = cell_at g p \<or> (cell_at g p = Hidden \<and> cell_at g' p = cell_at b p)"
  unfolding fill_post_def by blast

lemma fill_post_sound:
  "fill_post g b ns g' \<Longrightarrow> on_board p \<Longrightarrow> cell_at g' p \<noteq> cell_at g p \<Longrightarrow> p \<in> reach g b ns"
  unfolding fill_post_def by blast

lemma fill_post_visited:
  "fill_post g b ns g' \<Longrightarrow> p \<in> set ns \<Longrightarrow> cell_at g p = Hidden \<Longrightarrow> cell_at g' p = cell_at b p"
  unfolding fill_post_def by blast

lemma fill_post_closed:
  "fill_post g b ns g' \<Longrightarrow> on_board q \<Longrightarrow> cell_at g q = Hidden \<Longrightarrow> cell_at g' q = Num 0 \<Longrightarrow>
     p \<in> set (get_neighbours (fst q) (snd q)) \<Longrightarrow> cell_at g p = Hidden \<Longrightarrow>
     cell_at g' p = cell_at b p"
  unfolding fill_post_def by blast

text \<open>What the fill has written stays: a cell that holds its board value keeps it.\<close>

lemma fill_post_stable:
  "fill_post g b ns g' \<Longrightarrow> on_board p \<Longrightarrow> cell_at g p = cell_at b p \<Longrightarrow> cell_at g' p = cell_at b p"
  using fill_post_frame by fastforce

lemma fill_post_hidden:
  "fill_post g b ns g' \<Longrightarrow> on_board p \<Longrightarrow> cell_at g' p = Hidden \<Longrightarrow> cell_at g p = Hidden"
  using fill_post_frame by fastforce

lemma fill_post_Nil: "grid10 g \<Longrightarrow> fill_post g b [] g"
  by (rule fill_postI) simp_all

lemma fill_post_skip:
  assumes "cell_at g p0 \<noteq> Hidden" "fill_post g b rest g'"
  shows "fill_post g b (p0 # rest) g'"
proof (rule fill_postI)
  show "grid10 g'"
    using assms(2) by (rule fill_post_grid10)
  show "cell_at g' p = cell_at g p \<or> (cell_at g p = Hidden \<and> cell_at g' p = cell_at b p)"
    if "on_board p" for p
    using assms(2) that by (rule fill_post_frame)
  show "p \<in> reach g b (p0 # rest)" if "on_board p" "cell_at g' p \<noteq> cell_at g p" for p
  proof -
    have "p \<in> reach g b rest"
      using assms(2) that by (rule fill_post_sound)
    then show ?thesis
      by (rule reach_mono) (auto intro: reach.base)
  qed
  show "cell_at g' p = cell_at b p" if "p \<in> set (p0 # rest)" "cell_at g p = Hidden" for p
    using that assms fill_post_visited [OF assms(2), of p] by auto
  show "cell_at g' p = cell_at b p"
    if "on_board q" "cell_at g q = Hidden" "cell_at g' q = Num 0"
      "p \<in> set (get_neighbours (fst q) (snd q))" "cell_at g p = Hidden" for q p
    using assms(2) that by (rule fill_post_closed)
qed

lemma fill_post_reveal:
  assumes g: "grid10 g" and p0: "on_board p0" and ob: "\<forall>q \<in> set rest. on_board q"
    and hid: "cell_at g p0 = Hidden" and nz: "cell_at b p0 \<noteq> Num 0"
    and post: "fill_post (cell_upd g p0 (cell_at b p0)) b rest g'"
  shows "fill_post g b (p0 # rest) g'"
proof -
  let ?g1 = "cell_upd g p0 (cell_at b p0)"
  have g1: "cell_at ?g1 p = (if p = p0 then cell_at b p0 else cell_at g p)" if "on_board p" for p
    using g p0 that by (rule cell_at_cell_upd)
  have at_p0: "cell_at g' p0 = cell_at b p0"
    using fill_post_stable [OF post p0] g1 [OF p0] by simp
  have nb: "on_board p" if "on_board q" "p \<in> set (get_neighbours (fst q) (snd q))" for p q
    using that on_board_neighbours [of "fst q" "snd q" p] by simp
  show ?thesis
  proof (rule fill_postI)
    show "grid10 g'"
      using post by (rule fill_post_grid10)
    show "cell_at g' p = cell_at g p \<or> (cell_at g p = Hidden \<and> cell_at g' p = cell_at b p)"
      if "on_board p" for p
      using fill_post_frame [OF post that] g1 [OF that] hid at_p0 by (cases "p = p0") auto
    show "p \<in> reach g b (p0 # rest)" if "on_board p" "cell_at g' p \<noteq> cell_at g p" for p
    proof (cases "p = p0")
      case True
      with p0 hid show ?thesis
        by (simp add: reach.base)
    next
      case False
      with that g1 have "p \<in> reach ?g1 b rest"
        using fill_post_sound [OF post that(1)] by simp
      then show ?thesis
      proof (rule reach_mono)
        show "cell_at g q = Hidden" if "on_board q" "cell_at ?g1 q = Hidden" for q
          using that g1 [OF that(1)] hid by (cases "q = p0") auto
        show "q \<in> reach g b (p0 # rest)"
          if "q \<in> set rest" "on_board q" "cell_at ?g1 q = Hidden" for q
          using that g1 [OF that(2)] hid by (cases "q = p0") (auto intro: reach.base)
      qed
    qed
    show "cell_at g' p = cell_at b p" if "p \<in> set (p0 # rest)" "cell_at g p = Hidden" for p
    proof (cases "p = p0")
      case True
      with at_p0 show ?thesis by simp
    next
      case False
      with that ob have "p \<in> set rest" "on_board p" by auto
      with False that g1 show ?thesis
        using fill_post_visited [OF post, of p] by simp
    qed
    show "cell_at g' p = cell_at b p"
      if q: "on_board q" "cell_at g q = Hidden" "cell_at g' q = Num 0"
        and p: "p \<in> set (get_neighbours (fst q) (snd q))" "cell_at g p = Hidden" for q p
    proof (cases "p = p0")
      case True
      with at_p0 show ?thesis by simp
    next
      case False
      have "q \<noteq> p0"
        using q(3) at_p0 nz by auto
      have "on_board p"
        using q(1) p(1) by (rule nb)
      from fill_post_closed [OF post q(1) _ q(3) p(1)] g1 [OF q(1)] g1 [OF \<open>on_board p\<close>]
        \<open>q \<noteq> p0\<close> False q(2) p(2)
      show ?thesis by simp
    qed
  qed
qed

lemma fill_post_zero:
  assumes g: "grid10 g" and p0: "on_board p0" and ob: "\<forall>q \<in> set rest. on_board q"
    and hid: "cell_at g p0 = Hidden" and z: "cell_at b p0 = Num 0"
    and post1: "fill_post (cell_upd g p0 (cell_at b p0)) b (get_neighbours (fst p0) (snd p0)) g2"
    and post2: "fill_post g2 b rest g'"
  shows "fill_post g b (p0 # rest) g'"
proof -
  let ?g1 = "cell_upd g p0 (cell_at b p0)"
  let ?nb = "get_neighbours (fst p0) (snd p0)"
  have g1: "cell_at ?g1 p = (if p = p0 then Num 0 else cell_at g p)" if "on_board p" for p
    using cell_at_cell_upd [OF g p0 that] z by simp
  have g2_p0: "cell_at g2 p0 = Num 0"
    using fill_post_stable [OF post1 p0] g1 [OF p0] z by simp
  have at_p0: "cell_at g' p0 = cell_at b p0"
    using fill_post_stable [OF post2 p0] g2_p0 z by simp
  have nb: "on_board p" if "on_board q" "p \<in> set (get_neighbours (fst q) (snd q))" for p q
    using that on_board_neighbours [of "fst q" "snd q" p] by simp
  have hid21: "cell_at ?g1 q = Hidden" if "on_board q" "cell_at g2 q = Hidden" for q
    using post1 that by (rule fill_post_hidden)
  have hid10: "cell_at g q = Hidden" if "on_board q" "cell_at ?g1 q = Hidden" for q
    using that g1 [OF that(1)] hid by (cases "q = p0") auto
  have p0_reach: "p0 \<in> reach g b (p0 # rest)"
    using p0 hid by (simp add: reach.base)
  text \<open>A cell hidden at the start that the inner call has set keeps its board value.\<close>
  have settled: "cell_at g' p = cell_at b p"
    if "on_board p" "cell_at ?g1 p = Hidden" "cell_at g2 p \<noteq> Hidden" for p
  proof -
    from fill_post_frame [OF post1 that(1)] that(2,3) have "cell_at g2 p = cell_at b p"
      by auto
    then show ?thesis
      using fill_post_stable [OF post2 that(1)] by simp
  qed
  show ?thesis
  proof (rule fill_postI)
    show "grid10 g'"
      using post2 by (rule fill_post_grid10)
    show "cell_at g' p = cell_at g p \<or> (cell_at g p = Hidden \<and> cell_at g' p = cell_at b p)"
      if "on_board p" for p
    proof (cases "p = p0")
      case True
      with hid at_p0 show ?thesis by simp
    next
      case False
      with fill_post_frame [OF post1 that] fill_post_frame [OF post2 that] g1 [OF that]
      show ?thesis by auto
    qed
    show "p \<in> reach g b (p0 # rest)" if "on_board p" "cell_at g' p \<noteq> cell_at g p" for p
    proof (cases "p = p0")
      case True
      with p0_reach show ?thesis by simp
    next
      case False
      with g1 [OF that(1)] have same: "cell_at ?g1 p = cell_at g p" by simp
      show ?thesis
      proof (cases "cell_at g2 p = cell_at ?g1 p")
        case True
        with that same have "p \<in> reach g2 b rest"
          using fill_post_sound [OF post2 that(1)] by simp
        then show ?thesis
        proof (rule reach_mono)
          show "cell_at g q = Hidden" if "on_board q" "cell_at g2 q = Hidden" for q
            using that hid21 hid10 by blast
          show "q \<in> reach g b (p0 # rest)"
            if "q \<in> set rest" "on_board q" "cell_at g2 q = Hidden" for q
          proof -
            have "cell_at g q = Hidden"
              using hid10 [OF that(2) hid21 [OF that(2,3)]] .
            with that show ?thesis
              by (simp add: reach.base)
          qed
        qed
      next
        case False
        then have "p \<in> reach ?g1 b ?nb"
          using fill_post_sound [OF post1 that(1)] by simp
        then show ?thesis
        proof (rule reach_mono)
          show "cell_at g q = Hidden" if "on_board q" "cell_at ?g1 q = Hidden" for q
            using that by (rule hid10)
          show "q \<in> reach g b (p0 # rest)"
            if "q \<in> set ?nb" "on_board q" "cell_at ?g1 q = Hidden" for q
            using p0_reach z that(1) hid10 [OF that(2,3)] by (rule reach.step)
        qed
      qed
    qed
    show "cell_at g' p = cell_at b p" if "p \<in> set (p0 # rest)" "cell_at g p = Hidden" for p
    proof (cases "p = p0")
      case True
      with at_p0 show ?thesis by simp
    next
      case False
      with that ob have p: "p \<in> set rest" "on_board p" by auto
      with False that g1 have h1: "cell_at ?g1 p = Hidden" by simp
      show ?thesis
      proof (cases "cell_at g2 p = Hidden")
        case True
        with post2 p(1) show ?thesis
          by (rule fill_post_visited)
      next
        case False
        with p(2) h1 show ?thesis
          by (rule settled)
      qed
    qed
    show "cell_at g' p = cell_at b p"
      if q: "on_board q" "cell_at g q = Hidden" "cell_at g' q = Num 0"
        and p: "p \<in> set (get_neighbours (fst q) (snd q))" "cell_at g p = Hidden" for q p
    proof (cases "p = p0")
      case True
      with at_p0 show ?thesis by simp
    next
      case False
      have obp: "on_board p"
        using q(1) p(1) by (rule nb)
      with False p(2) g1 have h1p: "cell_at ?g1 p = Hidden" by simp
      show ?thesis
      proof (cases "cell_at g2 p = Hidden")
        case False
        with obp h1p show ?thesis
          by (rule settled)
      next
        case True
        note h2p = this
        show ?thesis
        proof (cases "q = p0")
          case True
          with p(1) have "p \<in> set ?nb" by simp
          with post1 have "cell_at g2 p = cell_at b p"
            using h1p by (rule fill_post_visited)
          then show ?thesis
            using fill_post_stable [OF post2 obp] by simp
        next
          case False
          with q(1,2) g1 have h1q: "cell_at ?g1 q = Hidden" by simp
          show ?thesis
          proof (cases "cell_at g2 q = Hidden")
            case True
            with post2 q(1) show ?thesis
              using q(3) p(1) h2p by (rule fill_post_closed)
          next
            case False
            from settled [OF q(1) h1q False] q(3) have "cell_at b q = Num 0"
              by simp
            with fill_post_frame [OF post1 q(1)] h1q False have "cell_at g2 q = Num 0"
              by auto
            with post1 q(1) h1q have "cell_at g2 p = cell_at b p"
              using p(1) h1p by (rule fill_post_closed)
            then show ?thesis
              using fill_post_stable [OF post2 obp] by simp
          qed
        qed
      qed
    qed
  qed
qed

lemma reveal_zeros_loop_fill:
  "revealed \<noteq> board \<Longrightarrow> grid10 (h revealed) \<Longrightarrow> grid10 (h board) \<Longrightarrow>
     \<forall>q \<in> set ns. on_board q \<Longrightarrow>
     \<exists>g'. reveal_zeros_loop h revealed board ns = Inr (h(revealed := g')) \<and>
          fill_post (h revealed) (h board) ns g'"
proof (induction h revealed board ns rule: reveal_zeros_loop.induct)
  case (1 h revealed board)
  have "reveal_zeros_loop h revealed board [] = Inr (h(revealed := h revealed))"
    by simp
  moreover have "fill_post (h revealed) (h board) [] (h revealed)"
    using "1.prems"(2) by (rule fill_post_Nil)
  ultimately show ?case
    by blast
next
  case (2 h revealed board x' y' rest)
  let ?g = "h revealed" and ?b = "h board"
  let ?v = "cell_at ?b (x', y')"
  let ?g1 = "cell_upd ?g (x', y') ?v"
  let ?h1 = "h(revealed := ?g1)"
  note ne = \<open>revealed \<noteq> board\<close>
  note g = \<open>grid10 ?g\<close> and b = \<open>grid10 ?b\<close>
  from "2.prems" have p0: "on_board (x', y')" and ob: "\<forall>q \<in> set rest. on_board q"
    by simp_all
  have rd: "get_cell ?g x' y' = Inr (cell_at ?g (x', y'))"
    using g p0 by (rule get_cell_on_board)
  have rdb: "get_cell ?b x' y' = Inr ?v"
    using b p0 by (rule get_cell_on_board)
  have wr: "set_cell ?g x' y' ?v = Inr ?g1"
    using g p0 by (rule set_cell_on_board)
  have g1: "grid10 (?h1 revealed)" "grid10 (?h1 board)" "?h1 board = ?b" "?h1 revealed = ?g1"
    using g b ne by (simp_all add: grid10_cell_upd)
  have unfold: "reveal_zeros_loop h revealed board ((x', y') # rest) =
    (if cell_at ?g (x', y') \<noteq> Hidden then reveal_zeros_loop h revealed board rest
     else if ?v = Num 0 then
       (case reveal_zeros_loop ?h1 revealed board (get_neighbours x' y') of
          Inl e \<Rightarrow> Inl e
        | Inr h' \<Rightarrow> reveal_zeros_loop h' revealed board rest)
     else reveal_zeros_loop ?h1 revealed board rest)"
    using g b p0 by (rule reveal_zeros_loop_Cons)
  show ?case
  proof (cases "cell_at ?g (x', y') = Hidden")
    case False
    from "2.IH"(1) [OF rd False ne g b ob] obtain g' where
      run: "reveal_zeros_loop h revealed board rest = Inr (h(revealed := g'))"
      and post: "fill_post ?g ?b rest g'"
      by blast
    have "reveal_zeros_loop h revealed board ((x', y') # rest) = Inr (h(revealed := g'))"
      unfolding unfold using False run by simp
    moreover have "fill_post ?g ?b ((x', y') # rest) g'"
      using False post by (rule fill_post_skip)
    ultimately show ?thesis
      by blast
  next
    case True
    then have nn: "\<not> cell_at ?g (x', y') \<noteq> Hidden" by simp
    show ?thesis
    proof (cases "?v = Num 0")
      case False
      from "2.IH"(4) [OF rd nn rdb wr False ne g1(1,2) ob] obtain g' where
        run0: "reveal_zeros_loop ?h1 revealed board rest = Inr (?h1(revealed := g'))"
        and post0: "fill_post (?h1 revealed) (?h1 board) rest g'"
        by blast
      from run0 have run: "reveal_zeros_loop ?h1 revealed board rest = Inr (h(revealed := g'))"
        by simp
      from post0 have post: "fill_post ?g1 ?b rest g'"
        unfolding g1(3,4) .
      have "reveal_zeros_loop h revealed board ((x', y') # rest) = Inr (h(revealed := g'))"
        unfolding unfold using True False run by simp
      moreover have "fill_post ?g ?b ((x', y') # rest) g'"
        using g p0 ob True False post by (rule fill_post_reveal)
      ultimately show ?thesis
        by blast
    next
      case z: True
      have nbs: "\<forall>q \<in> set (get_neighbours x' y'). on_board q"
        using p0 on_board_neighbours by blast
      from "2.IH"(2) [OF rd nn rdb wr z ne g1(1,2) nbs] obtain g2 where
        run1: "reveal_zeros_loop ?h1 revealed board (get_neighbours x' y') = Inr (?h1(revealed := g2))"
        and post10: "fill_post (?h1 revealed) (?h1 board) (get_neighbours x' y') g2"
        by blast
      from post10 have post1: "fill_post ?g1 ?b (get_neighbours x' y') g2"
        unfolding g1(3,4) .
      let ?h2 = "?h1(revealed := g2)"
      have g2: "grid10 (?h2 revealed)" "grid10 (?h2 board)" "?h2 board = ?b" "?h2 revealed = g2"
        using fill_post_grid10 [OF post1] b ne by simp_all
      from "2.IH"(3) [OF rd nn rdb wr z run1 ne g2(1,2) ob] obtain g' where
        run20: "reveal_zeros_loop ?h2 revealed board rest = Inr (?h2(revealed := g'))"
        and post20: "fill_post (?h2 revealed) (?h2 board) rest g'"
        by blast
      from run20 have run2: "reveal_zeros_loop ?h2 revealed board rest = Inr (h(revealed := g'))"
        by simp
      from post20 have post2: "fill_post g2 ?b rest g'"
        unfolding g2(3,4) .
      have "reveal_zeros_loop h revealed board ((x', y') # rest) = Inr (h(revealed := g'))"
        unfolding unfold using True z run1 run2 by simp
      moreover have "fill_post ?g ?b ((x', y') # rest) g'"
        using g p0 ob True z _ post2 by (rule fill_post_zero) (use post1 in simp)
      ultimately show ?thesis
        by blast
    qed
  qed
qed

subsection \<open>Termination of the flood fill\<close>

lemma grid10_replicate: "grid10 (replicate 10 (replicate 10 c))"
  by (simp add: grid10_def list_all_iff)

lemma hidden_in_row_le_length: "hidden_in_row row \<le> length row"
  by (simp add: hidden_in_row_def)

lemma hidden_count_le_100:
  assumes "grid10 g"
  shows "hidden_count g \<le> 100"
proof -
  have "hidden_in_row row \<le> 10" if "row \<in> set g" for row
    using assms that hidden_in_row_le_length [of row] by (auto simp: grid10_def list_all_iff)
  then have "sum_list (map hidden_in_row g) \<le> sum_list (map (\<lambda>row. 10) g)"
    by (rule sum_list_mono)
  also have "\<dots> = 100"
    using assms by (simp add: sum_list_triv grid10_def)
  finally show ?thesis
    by (simp add: hidden_count_def)
qed

lemma reveal_zeros_hidden_le:
  "reveal_zeros h revealed board x y = Inr h' \<Longrightarrow> hidden_count (h' revealed) \<le> hidden_count (h revealed)"
  unfolding reveal_zeros_def
  using reveal_zeros_loop_hidden_le reveal_zeros_loop_dom_all by blast

lemma reveal_zeros_fill:
  assumes "revealed \<noteq> board" "grid10 (h revealed)" "grid10 (h board)" "on_board (x, y)"
  shows "\<exists>g'. reveal_zeros h revealed board x y = Inr (h(revealed := g')) \<and>
          fill_post (h revealed) (h board) (get_neighbours x y) g'"
  unfolding reveal_zeros_def
  using assms on_board_neighbours [of x y]
  by (intro reveal_zeros_loop_fill) auto

text \<open>
  Claim C10: the recursion of \<open>reveal_zeros\<close> terminates on every input (the argument is in
  the accessible part of the call relation), because a recursive call is entered only
  after a hidden cell has received the value 0, which lowers the number of hidden cells,
  and no call raises that number; a 10 by 10 grid has at most 100 hidden cells, and on
  10 by 10 grids the call returns a heap.
\<close>

theorem reveal_zeros_terminates:
  "reveal_zeros_loop_dom (h, revealed, board, get_neighbours x y) \<and>
   (\<forall>x' y' r'. get_cell (h revealed) x' y' = Inr Hidden \<and>
       set_cell (h revealed) x' y' (Num 0) = Inr r' \<longrightarrow>
       hidden_count r' < hidden_count (h revealed)) \<and>
   (\<forall>h'. reveal_zeros h revealed board x y = Inr h' \<longrightarrow>
       hidden_count (h' revealed) \<le> hidden_count (h revealed)) \<and>
   (grid10 (h revealed) \<longrightarrow> hidden_count (h revealed) \<le> 100) \<and>
   (revealed \<noteq> board \<and> grid10 (h revealed) \<and> grid10 (h board) \<and> on_board (x, y) \<longrightarrow>
       (\<exists>h'. reveal_zeros h revealed board x y = Inr h'))"
proof (intro conjI allI impI)
  show "reveal_zeros_loop_dom (h, revealed, board, get_neighbours x y)"
    using reveal_zeros_loop_dom_all by blast
  show "hidden_count r' < hidden_count (h revealed)"
    if "get_cell (h revealed) x' y' = Inr Hidden \<and> set_cell (h revealed) x' y' (Num 0) = Inr r'"
    for x' y' r'
    using that set_cell_hidden [of "h revealed" x' y' "Num 0" r'] by auto
  show "hidden_count (h' revealed) \<le> hidden_count (h revealed)"
    if "reveal_zeros h revealed board x y = Inr h'" for h'
    using that by (rule reveal_zeros_hidden_le)
  show "hidden_count (h revealed) \<le> 100" if "grid10 (h revealed)"
    using that by (rule hidden_count_le_100)
  show "\<exists>h'. reveal_zeros h revealed board x y = Inr h'"
    if "revealed \<noteq> board \<and> grid10 (h revealed) \<and> grid10 (h board) \<and> on_board (x, y)"
    using that reveal_zeros_fill [of revealed board h x y] by blast
qed

theorem reveal_zeros_terminates_witness:
  "(0::nat) \<noteq> 1 \<and>
   grid10 (replicate 10 (replicate 10 Hidden)) \<and> grid10 (replicate 10 (replicate 10 (Num 0))) \<and>
   on_board (0, 0) \<and>
   (\<exists>h'. reveal_zeros (\<lambda>a. replicate 10 (replicate 10 (if a = 0 then Hidden else Num 0))) 0 1 0 0
            = Inr h' \<and>
         hidden_count (h' 0) \<le> 100)"
proof -
  let ?h = "\<lambda>a::nat. replicate 10 (replicate 10 (if a = 0 then Hidden else Num 0))"
  have g: "grid10 (?h 0)" "grid10 (?h 1)" "on_board (0, 0)"
    by (simp_all add: grid10_replicate on_board_def)
  with reveal_zeros_terminates [of ?h 0 1 0 0] obtain h' where
    "reveal_zeros ?h 0 1 0 0 = Inr h'" "hidden_count (h' 0) \<le> hidden_count (?h 0)"
    "hidden_count (?h 0) \<le> 100"
    by auto
  with g show ?thesis
    by auto
qed

subsection \<open>The win check and one reveal\<close>

lemma all_safe_revealed_iff:
  "all_safe_revealed r b \<longleftrightarrow>
     (\<forall>p. on_board p \<longrightarrow> cell_at b p = Bomb \<or> is_revealed (cell_at r p))"
  by (simp add: all_safe_revealed_def list_all_iff set_board_cells)

lemma any_unrevealed_on_board:
  "grid10 r \<Longrightarrow> grid10 b \<Longrightarrow> \<forall>p \<in> set cs. on_board p \<Longrightarrow>
     any_unrevealed r b cs =
       Inr (\<exists>p \<in> set cs. (cell_at r p = Hidden \<or> cell_at r p = Flag) \<and> cell_at b p \<noteq> Bomb)"
proof (induction cs)
  case Nil
  then show ?case by simp
next
  case (Cons p cs)
  obtain x y where p: "p = (x, y)" by (cases p)
  from Cons.prems have "get_cell r x y = Inr (cell_at r (x, y))" "get_cell b x y = Inr (cell_at b (x, y))"
    by (simp_all add: p get_cell_on_board)
  with Cons show ?case
    by (auto simp: p)
qed

lemma set_check_cells: "set [(x, y). x \<leftarrow> [0..9], y \<leftarrow> [0..9]] = {p. on_board p}"
  by (auto simp: on_board_def image_iff simp del: upto_rec_numeral)

lemma any_unrevealed_all:
  assumes "grid10 r" "grid10 b"
  shows "any_unrevealed r b [(x, y). x \<leftarrow> [0..9], y \<leftarrow> [0..9]] = Inr (\<not> all_safe_revealed r b)"
proof -
  have "\<forall>p \<in> set [(x, y). x \<leftarrow> [0..9], y \<leftarrow> [0..9]]. on_board p"
    unfolding set_check_cells by simp
  from any_unrevealed_on_board [OF assms this] show ?thesis
    unfolding set_check_cells all_safe_revealed_iff is_revealed_def by auto
qed

lemma check_if_won_result:
  assumes "games s author = Some game" "grid10 (heap s revealed)" "grid10 (heap s board)"
  shows "check_if_won s author revealed board =
    Inr (if all_safe_revealed (heap s revealed) (heap s board)
         then (Won, s\<lparr>games := (games s)(author \<mapsto> game\<lparr>revealed_ref := board_ref game\<rparr>)\<rparr>)
         else (Continue, s))"
  using assms
  by (simp add: check_if_won_def any_unrevealed_all won_def disclose_def del: upto_rec_numeral)

text \<open>
  One reveal on 10 by 10 grids held by two distinct lists: the cell receives its board
  value, a zero starts the fill, and the outcome is \<open>Lost\<close> on a bomb and otherwise \<open>Won\<close>
  exactly when the win check finds every safe cell revealed.
\<close>

lemma reveal_one_result:
  assumes game: "games s author = Some game" and ne: "revealed \<noteq> board"
    and g: "grid10 (heap s revealed)" and b: "grid10 (heap s board)" and p: "on_board (x, y)"
  shows "\<exists>g'. grid10 g' \<and>
    (if cell_at (heap s board) (x, y) = Num 0
     then fill_post (cell_upd (heap s revealed) (x, y) (Num 0)) (heap s board) (get_neighbours x y) g'
     else g' = cell_upd (heap s revealed) (x, y) (cell_at (heap s board) (x, y))) \<and>
    reveal_one s author revealed board x y =
      Inr (if cell_at (heap s board) (x, y) = Bomb
           then (Lost, s\<lparr>heap := (heap s)(revealed := g'),
                          games := (games s)(author \<mapsto> game\<lparr>revealed_ref := board_ref game\<rparr>)\<rparr>)
           else if all_safe_revealed g' (heap s board)
           then (Won, s\<lparr>heap := (heap s)(revealed := g'),
                         games := (games s)(author \<mapsto> game\<lparr>revealed_ref := board_ref game\<rparr>)\<rparr>)
           else (Continue, s\<lparr>heap := (heap s)(revealed := g')\<rparr>))"
proof -
  let ?v = "cell_at (heap s board) (x, y)"
  let ?g1 = "cell_upd (heap s revealed) (x, y) ?v"
  let ?s1 = "s\<lparr>heap := (heap s)(revealed := ?g1)\<rparr>"
  have rd: "get_cell (heap s board) x y = Inr ?v"
    using b p by (rule get_cell_on_board)
  have wr: "set_cell (heap s revealed) x y ?v = Inr ?g1"
    using g p by (rule set_cell_on_board)
  have g1: "grid10 ?g1"
    using g by (rule grid10_cell_upd)
  have one: "reveal_one s author revealed board x y =
     (if ?v = Bomb then
        (case lost ?s1 author of Inl e \<Rightarrow> Inl e | Inr s2 \<Rightarrow> Inr (Lost, s2))
      else if ?v = Num 0 then
        (case reveal_zeros (heap ?s1) revealed board x y of
           Inl e \<Rightarrow> Inl e
         | Inr h' \<Rightarrow> check_if_won (?s1\<lparr>heap := h'\<rparr>) author revealed board)
      else check_if_won ?s1 author revealed board)"
    by (simp add: reveal_one_def rd wr Let_def)
  show ?thesis
  proof (cases "?v = Bomb")
    case True
    with game g1 show ?thesis
      unfolding one by (simp add: lost_def disclose_def)
  next
    case nb: False
    show ?thesis
    proof (cases "?v = Num 0")
      case False
      have "check_if_won ?s1 author revealed board =
        Inr (if all_safe_revealed ?g1 (heap s board)
             then (Won, ?s1\<lparr>games := (games ?s1)(author \<mapsto> game\<lparr>revealed_ref := board_ref game\<rparr>)\<rparr>)
             else (Continue, ?s1))"
        using check_if_won_result [of ?s1 author game revealed board] game g1 b ne by simp
      with nb False g1 show ?thesis
        unfolding one by simp
    next
      case z: True
      from reveal_zeros_fill [of revealed board "heap ?s1" x y] ne g1 b p obtain g' where
        run: "reveal_zeros (heap ?s1) revealed board x y = Inr ((heap s)(revealed := g'))"
        and post: "fill_post ?g1 (heap s board) (get_neighbours x y) g'"
        by auto
      let ?s2 = "s\<lparr>heap := (heap s)(revealed := g')\<rparr>"
      have g': "grid10 g'"
        using post by (rule fill_post_grid10)
      have "check_if_won ?s2 author revealed board =
        Inr (if all_safe_revealed g' (heap s board)
             then (Won, ?s2\<lparr>games := (games ?s2)(author \<mapsto> game\<lparr>revealed_ref := board_ref game\<rparr>)\<rparr>)
             else (Continue, ?s2))"
        using check_if_won_result [of ?s2 author game revealed board] game g' b ne by simp
      with nb z g' post run show ?thesis
        unfolding one by auto
    qed
  qed
qed

subsection \<open>The win condition\<close>

lemma quiet_game_facts:
  "games quiet_game 7 = Some \<lparr>board_ref = 0, revealed_ref = 1, activated_on_server = False\<rparr>"
  "grid10 (heap quiet_game 0)" "grid10 (heap quiet_game 1)"
  by (simp_all add: quiet_game_def grid10_replicate)

text \<open>
  Claim C3, as amended: after a reveal step (with the flood fill it may start) the outcome
  is \<open>Won\<close> exactly when the revealed cell is not a bomb and every cell of the board that is
  not a bomb is revealed; the outcome is \<open>Lost\<close> exactly when the revealed cell is a bomb.
\<close>

theorem reveal_one_won_iff:
  assumes "games s author = Some game" "revealed \<noteq> board"
    and "grid10 (heap s revealed)" "grid10 (heap s board)" "on_board (x, y)"
  shows "\<exists>out s'. reveal_one s author revealed board x y = Inr (out, s') \<and>
     heap s' board = heap s board \<and>
     (out = Won \<longleftrightarrow>
        cell_at (heap s board) (x, y) \<noteq> Bomb \<and>
        all_safe_revealed (heap s' revealed) (heap s' board)) \<and>
     (out = Lost \<longleftrightarrow> cell_at (heap s board) (x, y) = Bomb)"
proof -
  from reveal_one_result [OF assms] obtain g' where
    run: "reveal_one s author revealed board x y =
      Inr (if cell_at (heap s board) (x, y) = Bomb
           then (Lost, s\<lparr>heap := (heap s)(revealed := g'),
                          games := (games s)(author \<mapsto> game\<lparr>revealed_ref := board_ref game\<rparr>)\<rparr>)
           else if all_safe_revealed g' (heap s board)
           then (Won, s\<lparr>heap := (heap s)(revealed := g'),
                         games := (games s)(author \<mapsto> game\<lparr>revealed_ref := board_ref game\<rparr>)\<rparr>)
           else (Continue, s\<lparr>heap := (heap s)(revealed := g')\<rparr>))"
    by blast
  show ?thesis
    unfolding run using assms(2) by auto
qed

theorem reveal_one_won_iff_witness:
  "games quiet_game 7 = Some \<lparr>board_ref = 0, revealed_ref = 1, activated_on_server = False\<rparr> \<and>
   (1::nat) \<noteq> 0 \<and> grid10 (heap quiet_game 1) \<and> grid10 (heap quiet_game 0) \<and> on_board (0, 0) \<and>
   (\<exists>out s'. reveal_one quiet_game 7 1 0 0 0 = Inr (out, s') \<and> out \<noteq> Lost)"
proof -
  have "on_board (0, 0)" "cell_at (heap quiet_game 0) (0, 0) \<noteq> Bomb"
    by (simp_all add: on_board_def quiet_game_def cell_at_def)
  with reveal_one_won_iff [OF quiet_game_facts(1) _ quiet_game_facts(3,2), of 0 0]
  show ?thesis
    using quiet_game_facts by auto
qed

text \<open>
  The claim as stated fails on a board of bombs only (bomb chance 1): no cell that is not a
  bomb is left unrevealed, and the first reveal gives \<open>Lost\<close>, not \<open>Won\<close>.
\<close>

theorem won_iff_counterexample:
  "(case start_command no_games 7 False 1 (\<lambda>k. 1 / 2) of
      Inl e \<Rightarrow> False
    | Inr (r, s) \<Rightarrow>
        (case games s 7 of
           None \<Rightarrow> False
         | Some game \<Rightarrow>
             (case reveal_one s 7 (revealed_ref game) (board_ref game) 0 0 of
                Inl e \<Rightarrow> False
              | Inr (out, s') \<Rightarrow>
                  out = Lost \<and>
                  all_safe_revealed (heap s' (revealed_ref game)) (heap s' (board_ref game)))))"
  by code_simp

subsection \<open>Flood fill: the region revealed\<close>

lemma neighbour_iff_adjacent:
  assumes "on_board q"
  shows "p \<in> set (get_neighbours (fst q) (snd q)) \<longleftrightarrow> on_board p \<and> (p = q \<or> adjacent q p)"
proof -
  obtain a b where p: "p = (a, b)" by (cases p)
  obtain x y where q: "q = (x, y)" by (cases q)
  show ?thesis
    using assms unfolding p q
    by (auto simp: in_get_neighbours_on_board adjacent_def)
qed

lemma fill_region_reach:
  assumes g: "grid10 g" and s: "on_board start" and z: "cell_at b start = Num 0"
  shows "p \<in> fill_region g b start \<longleftrightarrow>
         p = start \<or> p \<in> reach (cell_upd g start (Num 0)) b (get_neighbours (fst start) (snd start))"
proof -
  let ?g1 = "cell_upd g start (Num 0)"
  let ?nb = "get_neighbours (fst start) (snd start)"
  have g1: "cell_at ?g1 p = (if p = start then Num 0 else cell_at g p)" if "on_board p" for p
    using g s that by (rule cell_at_cell_upd)
  have "p = start \<or> p \<in> reach ?g1 b ?nb" if "p \<in> fill_region g b start"
    using that
  proof (induction rule: fill_region.induct)
    case start
    then show ?case by simp
  next
    case (spread q p)
    show ?case
    proof (cases "p = start")
      case True
      then show ?thesis by simp
    next
      case False
      with spread g1 have h1: "cell_at ?g1 p = Hidden" by simp
      from spread.IH show ?thesis
      proof
        assume "q = start"
        with spread s have "p \<in> set ?nb"
          by (simp add: neighbour_iff_adjacent)
        with spread h1 show ?thesis
          by (simp add: reach.base)
      next
        assume q: "q \<in> reach ?g1 b ?nb"
        then have "on_board q" by (rule reach_on_board)
        with spread have "p \<in> set (get_neighbours (fst q) (snd q))"
          by (simp add: neighbour_iff_adjacent)
        with q spread h1 show ?thesis
          by (simp add: reach.step)
      qed
    qed
  qed
  moreover have "p \<in> fill_region g b start" if "p \<in> reach ?g1 b ?nb"
    using that
  proof (induction rule: reach.induct)
    case (base p)
    with g1 have ne: "p \<noteq> start" and h: "cell_at g p = Hidden"
      by (auto split: if_splits)
    from base s ne have "adjacent start p"
      by (simp add: neighbour_iff_adjacent)
    with fill_region.start z base h show ?case
      by (blast intro: fill_region.spread)
  next
    case (step q p)
    have obq: "on_board q"
      using step.hyps(1) by (rule reach_on_board)
    with step have obp: "on_board p" and adj: "p = q \<or> adjacent q p"
      by (simp_all add: neighbour_iff_adjacent)
    with step g1 have h: "cell_at g p = Hidden"
      by (auto split: if_splits)
    from adj show ?case
    proof
      assume "p = q"
      with step.IH show ?thesis by simp
    next
      assume "adjacent q p"
      with step.IH step.hyps(2) obp h show ?thesis
        by (blast intro: fill_region.spread)
    qed
  qed
  ultimately show ?thesis
    using fill_region.start by blast
qed

lemma fill_region_hidden:
  "p \<in> fill_region g b start \<Longrightarrow> p = start \<or> cell_at g p = Hidden"
  by (induction rule: fill_region.induct) simp_all

lemma fill_post_reach:
  assumes post: "fill_post g b ns g'" and p: "on_board p"
  shows "cell_at g' p = (if p \<in> reach g b ns then cell_at b p else cell_at g p)"
proof (cases "p \<in> reach g b ns")
  case True
  then have "cell_at g' p = cell_at b p"
  proof (induction rule: reach.induct)
    case (base p)
    with post show ?case
      by (simp add: fill_post_visited)
  next
    case (step q p)
    have "on_board q" "cell_at g q = Hidden"
      using step.hyps(1) by (rule reach_on_board, rule reach_hidden)
    with post show ?case
      using step by (auto intro: fill_post_closed)
  qed
  with True show ?thesis by simp
next
  case False
  with fill_post_sound [OF post p] show ?thesis
    by auto
qed

text \<open>
  Claim C4: revealing a cell whose board value is 0 gives every cell of the fill region its
  board value and leaves every other cell of the revealed grid as it was; the region is
  the start cell with the hidden cells reached from it through adjacent zero cells, each
  of them hidden when the fill begins. So a cell that is flagged or already revealed,
  other than the start cell itself, is not modified, and the board is unchanged.
\<close>

theorem flood_fill_region:
  assumes "games s author = Some game" "revealed \<noteq> board"
    and "grid10 (heap s revealed)" "grid10 (heap s board)" "on_board (x, y)"
    and "cell_at (heap s board) (x, y) = Num 0"
  shows "\<exists>out s'. reveal_one s author revealed board x y = Inr (out, s') \<and>
     heap s' board = heap s board \<and> grid10 (heap s' revealed) \<and>
     (\<forall>p. on_board p \<longrightarrow>
        cell_at (heap s' revealed) p =
          (if p \<in> fill_region (heap s revealed) (heap s board) (x, y)
           then cell_at (heap s board) p else cell_at (heap s revealed) p)) \<and>
     (\<forall>p. on_board p \<and> p \<noteq> (x, y) \<and> cell_at (heap s revealed) p \<noteq> Hidden \<longrightarrow>
        cell_at (heap s' revealed) p = cell_at (heap s revealed) p)"
proof -
  let ?g = "heap s revealed" and ?b = "heap s board"
  let ?g1 = "cell_upd ?g (x, y) (Num 0)"
  from reveal_one_result [OF assms(1-5)] assms(6) obtain g' out s' where
    g': "grid10 g'" and post: "fill_post ?g1 ?b (get_neighbours x y) g'"
    and run: "reveal_one s author revealed board x y = Inr (out, s')"
    and s': "heap s' = (heap s)(revealed := g')"
    by (auto split: if_splits)
  have cells: "cell_at g' p = (if p \<in> fill_region ?g ?b (x, y) then cell_at ?b p else cell_at ?g p)"
    if "on_board p" for p
  proof -
    have "cell_at g' p = (if p \<in> reach ?g1 ?b (get_neighbours x y) then cell_at ?b p else cell_at ?g1 p)"
      using post that by (rule fill_post_reach)
    moreover have "cell_at ?g1 p = (if p = (x, y) then Num 0 else cell_at ?g p)"
      using assms(3,5) that by (rule cell_at_cell_upd)
    moreover have "p \<in> fill_region ?g ?b (x, y) \<longleftrightarrow>
        p = (x, y) \<or> p \<in> reach ?g1 ?b (get_neighbours x y)"
      using fill_region_reach [OF assms(3,5,6), of p] by simp
    ultimately show ?thesis
      using assms(6) by auto
  qed
  have "cell_at g' p = cell_at ?g p"
    if "on_board p \<and> p \<noteq> (x, y) \<and> cell_at ?g p \<noteq> Hidden" for p
    using that cells [of p] fill_region_hidden [of p ?g ?b "(x, y)"] by auto
  with run s' g' cells assms(2) show ?thesis
    by auto
qed

theorem flood_fill_region_witness:
  "games quiet_game 7 = Some \<lparr>board_ref = 0, revealed_ref = 1, activated_on_server = False\<rparr> \<and>
   (1::nat) \<noteq> 0 \<and> grid10 (heap quiet_game 1) \<and> grid10 (heap quiet_game 0) \<and> on_board (0, 0) \<and>
   cell_at (heap quiet_game 0) (0, 0) = Num 0 \<and>
   (\<exists>out s'. reveal_one quiet_game 7 1 0 0 0 = Inr (out, s') \<and>
      cell_at (heap s' 1) (1, 1) = Num 0)"
proof -
  have ob: "on_board (0, 0)" "on_board (1, 1)"
    by (simp_all add: on_board_def)
  have z: "cell_at (heap quiet_game 0) (0, 0) = Num 0" "cell_at (heap quiet_game 0) (1, 1) = Num 0"
    and h: "cell_at (heap quiet_game 1) (1, 1) = Hidden"
    by (simp_all add: quiet_game_def cell_at_def)
  have adj: "adjacent (0, 0) (1, 1)"
    by (simp add: adjacent_def)
  have "(1, 1) \<in> fill_region (heap quiet_game 1) (heap quiet_game 0) (0, 0)"
    using fill_region.start z(1) ob(2) adj h by (rule fill_region.spread)
  with flood_fill_region [OF quiet_game_facts(1) _ quiet_game_facts(3,2) ob(1) z(1)] ob(2) z(2)
  obtain out s' where "reveal_one quiet_game 7 1 0 0 0 = Inr (out, s')"
    "cell_at (heap s' 1) (1, 1) = Num 0"
    by auto
  with quiet_game_facts ob(1) z(1) show ?thesis
    by auto
qed

subsection \<open>Batches of reveals\<close>

lemma revealed_by_Nil: "revealed_by [] g b g"
  by (simp add: revealed_by_def)

lemma revealed_byD:
  "revealed_by cs g b g' \<Longrightarrow> on_board q \<Longrightarrow>
     cell_at g' q = cell_at g q \<or>
     ((cell_at g q = Hidden \<or> q \<in> set cs) \<and> cell_at g' q = cell_at b q)"
  unfolding revealed_by_def by blast

lemma revealed_by_Cons:
  assumes "revealed_by [c] g b g1" "revealed_by cs g1 b g2"
  shows "revealed_by (c # cs) g b g2"
  unfolding revealed_by_def
proof (intro allI impI)
  fix q assume q: "on_board q"
  from revealed_byD [OF assms(1) q] revealed_byD [OF assms(2) q]
  show "cell_at g2 q = cell_at g q \<or>
        ((cell_at g q = Hidden \<or> q \<in> set (c # cs)) \<and> cell_at g2 q = cell_at b q)"
    by auto
qed

lemma reveal_one_step:
  assumes act: "active s author game" and p: "on_board (x, y)"
  shows "\<exists>out g'. grid10 g' \<and>
     revealed_by [(x, y)] (heap s (revealed_ref game)) (heap s (board_ref game)) g' \<and>
     (out = Lost \<longleftrightarrow> cell_at (heap s (board_ref game)) (x, y) = Bomb) \<and>
     reveal_one s author (revealed_ref game) (board_ref game) x y =
       Inr (out,
            if out = Continue then s\<lparr>heap := (heap s)(revealed_ref game := g')\<rparr>
            else s\<lparr>heap := (heap s)(revealed_ref game := g'),
                   games := (games s)(author \<mapsto> game\<lparr>revealed_ref := board_ref game\<rparr>)\<rparr>)"
proof -
  let ?r = "revealed_ref game" and ?b = "board_ref game"
  let ?v = "cell_at (heap s ?b) (x, y)"
  let ?g1 = "cell_upd (heap s ?r) (x, y) ?v"
  from act have a: "games s author = Some game" "?r \<noteq> ?b" "grid10 (heap s ?r)" "grid10 (heap s ?b)"
    by (simp_all add: active_def)
  from reveal_one_result [OF a p] obtain g' where
    g': "grid10 g'"
    and fill: "if ?v = Num 0
       then fill_post (cell_upd (heap s ?r) (x, y) (Num 0)) (heap s ?b) (get_neighbours x y) g'
       else g' = ?g1"
    and run: "reveal_one s author ?r ?b x y =
      Inr (if ?v = Bomb
           then (Lost, s\<lparr>heap := (heap s)(?r := g'),
                          games := (games s)(author \<mapsto> game\<lparr>revealed_ref := ?b\<rparr>)\<rparr>)
           else if all_safe_revealed g' (heap s ?b)
           then (Won, s\<lparr>heap := (heap s)(?r := g'),
                         games := (games s)(author \<mapsto> game\<lparr>revealed_ref := ?b\<rparr>)\<rparr>)
           else (Continue, s\<lparr>heap := (heap s)(?r := g')\<rparr>))"
    by blast
  have g1: "cell_at ?g1 q = (if q = (x, y) then ?v else cell_at (heap s ?r) q)" if "on_board q" for q
    using a(3) p that by (rule cell_at_cell_upd)
  have "revealed_by [(x, y)] (heap s ?r) (heap s ?b) g'"
    unfolding revealed_by_def
  proof (intro allI impI)
    fix q assume q: "on_board q"
    show "cell_at g' q = cell_at (heap s ?r) q \<or>
       ((cell_at (heap s ?r) q = Hidden \<or> q \<in> set [(x, y)]) \<and> cell_at g' q = cell_at (heap s ?b) q)"
    proof (cases "?v = Num 0")
      case False
      with fill g1 [OF q] show ?thesis by auto
    next
      case True
      with fill have post: "fill_post ?g1 (heap s ?b) (get_neighbours x y) g'"
        by simp
      from fill_post_frame [OF post q] fill_post_stable [OF post q] g1 [OF q]
      show ?thesis by (cases "q = (x, y)") auto
    qed
  qed
  with g' run show ?thesis
    by (intro exI [of _ "if ?v = Bomb then Lost else if all_safe_revealed g' (heap s ?b) then Won else Continue"]
        exI [of _ g']) auto
qed

lemma revealed_by_refl: "revealed_by cs g b g"
  by (simp add: revealed_by_def)

lemma active_heap_update:
  assumes "active s author game" "grid10 g'"
  shows "active (s\<lparr>heap := (heap s)(revealed_ref game := g')\<rparr>) author game"
  using assms by (simp add: active_def)

lemma update_boards_active:
  "games s author = Some game \<Longrightarrow> update_boards s author = Inr (heap s (revealed_ref game))"
  by (simp add: update_boards_def)

text \<open>
  A batch of reveals in an active game: either every reveal gives \<open>Continue\<close> and the grid
  shown is the revealed grid, or the batch ends the game, the grid shown is the board and
  the record is removed. Only the revealed grid changes in the heap.
\<close>

lemma reveal_loop_result:
  "active s author game \<Longrightarrow> \<forall>p \<in> set cs. on_board p \<Longrightarrow>
     \<exists>out g'. grid10 g' \<and>
       revealed_by cs (heap s (revealed_ref game)) (heap s (board_ref game)) g' \<and>
       reveal_loop s author (revealed_ref game) (board_ref game) cs =
         Inr (Outcome (if out = Continue then g' else heap s (board_ref game)) out,
              if out = Continue then s\<lparr>heap := (heap s)(revealed_ref game := g')\<rparr>
              else s\<lparr>heap := (heap s)(revealed_ref game := g'),
                     games := (games s)(author := None)\<rparr>)"
proof (induction cs arbitrary: s)
  case Nil
  then have "games s author = Some game" "grid10 (heap s (revealed_ref game))"
    by (simp_all add: active_def)
  then show ?case
    by (intro exI [of _ Continue] exI [of _ "heap s (revealed_ref game)"])
       (simp add: update_boards_active revealed_by_refl)
next
  case (Cons c cs)
  let ?r = "revealed_ref game" and ?b = "board_ref game"
  obtain x y where c: "c = (x, y)" by (cases c)
  from Cons.prems have act: "active s author game" and p: "on_board (x, y)"
    and ob: "\<forall>p \<in> set cs. on_board p"
    by (simp_all add: c)
  from act have ne: "?r \<noteq> ?b"
    by (simp add: active_def)
  from reveal_one_step [OF act p] obtain out1 g1 where
    g1: "grid10 g1" and by1: "revealed_by [(x, y)] (heap s ?r) (heap s ?b) g1"
    and run1: "reveal_one s author ?r ?b x y =
       Inr (out1,
            if out1 = Continue then s\<lparr>heap := (heap s)(?r := g1)\<rparr>
            else s\<lparr>heap := (heap s)(?r := g1),
                   games := (games s)(author \<mapsto> game\<lparr>revealed_ref := ?b\<rparr>)\<rparr>)"
    by blast
  show ?case
  proof (cases "out1 = Continue")
    case False
    have "revealed_by (c # cs) (heap s ?r) (heap s ?b) g1"
      using by1 revealed_by_refl unfolding c by (rule revealed_by_Cons)
    moreover have "reveal_loop s author ?r ?b (c # cs) =
       Inr (Outcome (heap s ?b) out1,
            s\<lparr>heap := (heap s)(?r := g1), games := (games s)(author := None)\<rparr>)"
      using False ne by (simp add: c run1 update_boards_def)
    ultimately show ?thesis
      using g1 False by (intro exI [of _ out1] exI [of _ g1]) simp
  next
    case True
    let ?s1 = "s\<lparr>heap := (heap s)(?r := g1)\<rparr>"
    have act1: "active ?s1 author game"
      using act g1 by (rule active_heap_update)
    from Cons.IH [OF act1 ob] obtain out g' where
      g': "grid10 g'" and by2: "revealed_by cs (heap ?s1 ?r) (heap ?s1 ?b) g'"
      and run2: "reveal_loop ?s1 author ?r ?b cs =
         Inr (Outcome (if out = Continue then g' else heap ?s1 ?b) out,
              if out = Continue then ?s1\<lparr>heap := (heap ?s1)(?r := g')\<rparr>
              else ?s1\<lparr>heap := (heap ?s1)(?r := g'), games := (games ?s1)(author := None)\<rparr>)"
      by blast
    from by2 ne have "revealed_by cs g1 (heap s ?b) g'"
      by simp
    with by1 have "revealed_by (c # cs) (heap s ?r) (heap s ?b) g'"
      unfolding c by (rule revealed_by_Cons)
    moreover have "reveal_loop s author ?r ?b (c # cs) =
         Inr (Outcome (if out = Continue then g' else heap s ?b) out,
              if out = Continue then s\<lparr>heap := (heap s)(?r := g')\<rparr>
              else s\<lparr>heap := (heap s)(?r := g'), games := (games s)(author := None)\<rparr>)"
      using True ne run2 by (simp add: c run1)
    ultimately show ?thesis
      using g' by blast
  qed
qed

lemma active_mined_game:
  "active mined_game 7 \<lparr>board_ref = 0, revealed_ref = 1, activated_on_server = False\<rparr>"
  by (simp add: active_def mined_game_def grid10_replicate)

lemma reveal_loop_continue:
  "active s author game \<Longrightarrow> \<forall>p \<in> set pre. on_board p \<Longrightarrow>
     reveal_loop s author (revealed_ref game) (board_ref game) pre
       = Inr (Outcome shown Continue, s1) \<Longrightarrow>
     active s1 author game \<and> heap s1 (board_ref game) = heap s (board_ref game) \<and>
     (\<forall>rest. reveal_loop s author (revealed_ref game) (board_ref game) (pre @ rest) =
             reveal_loop s1 author (revealed_ref game) (board_ref game) rest)"
proof (induction pre arbitrary: s)
  case Nil
  then show ?case
    by (auto simp: active_def update_boards_def)
next
  case (Cons c pre)
  let ?r = "revealed_ref game" and ?b = "board_ref game"
  obtain x y where c: "c = (x, y)" by (cases c)
  from Cons.prems have act: "active s author game" and p: "on_board (x, y)"
    and ob: "\<forall>p \<in> set pre. on_board p"
    by (simp_all add: c)
  from act have ne: "?r \<noteq> ?b"
    by (simp add: active_def)
  from reveal_one_step [OF act p] obtain out1 g1 where
    g1: "grid10 g1"
    and run1: "reveal_one s author ?r ?b x y =
       Inr (out1,
            if out1 = Continue then s\<lparr>heap := (heap s)(?r := g1)\<rparr>
            else s\<lparr>heap := (heap s)(?r := g1),
                   games := (games s)(author \<mapsto> game\<lparr>revealed_ref := ?b\<rparr>)\<rparr>)"
    by blast
  let ?s1 = "s\<lparr>heap := (heap s)(?r := g1)\<rparr>"
  have cont: "out1 = Continue"
  proof (rule ccontr)
    assume "out1 \<noteq> Continue"
    with Cons.prems(3) show False
      by (simp add: c run1 update_boards_def)
  qed
  have act1: "active ?s1 author game"
    using act g1 by (rule active_heap_update)
  have step: "reveal_loop s author ?r ?b (c # rest) = reveal_loop ?s1 author ?r ?b rest" for rest
    using cont by (simp add: c run1)
  from Cons.prems(3) have "reveal_loop ?s1 author ?r ?b pre = Inr (Outcome shown Continue, s1)"
    unfolding step .
  from Cons.IH [OF act1 ob this] ne show ?case
    by (simp add: step)
qed

text \<open>
  Claim C5: in an active game, let the coordinates before \<open>(x, y)\<close> all have given
  \<open>Continue\<close>. Revealing \<open>(x, y)\<close> gives \<open>Lost\<close> if the board holds a bomb there; and if it
  gives \<open>Lost\<close> or \<open>Won\<close>, the record's \<open>revealed\<close> has become its \<open>board\<close>, the command shows
  the whole board, removes the author's record and returns, whatever coordinates follow.
\<close>

theorem reveal_command_stops_at_first_end:
  assumes "active s author game" and "\<forall>p \<in> set (pre @ (x, y) # post). on_board p"
    and "reveal_command s author pre = Inr (Outcome shown Continue, s1)"
  shows "\<exists>out s2. reveal_one s1 author (revealed_ref game) (board_ref game) x y = Inr (out, s2) \<and>
     (cell_at (heap s (board_ref game)) (x, y) = Bomb \<longrightarrow> out = Lost) \<and>
     (out \<noteq> Continue \<longrightarrow>
        games s2 author = Some (game\<lparr>revealed_ref := board_ref game\<rparr>) \<and>
        heap s2 (board_ref game) = heap s (board_ref game) \<and>
        reveal_command s author (pre @ (x, y) # post) =
          Inr (Outcome (heap s (board_ref game)) out, s2\<lparr>games := (games s2)(author := None)\<rparr>) \<and>
        games (s2\<lparr>games := (games s2)(author := None)\<rparr>) author = None)"
proof -
  let ?r = "revealed_ref game" and ?b = "board_ref game"
  from assms(1) have game: "games s author = Some game" and ne: "?r \<noteq> ?b"
    by (simp_all add: active_def)
  from assms(2) have ob: "\<forall>p \<in> set pre. on_board p" and p: "on_board (x, y)"
    by simp_all
  from assms(3) game have "reveal_loop s author ?r ?b pre = Inr (Outcome shown Continue, s1)"
    by (simp add: reveal_command_def)
  from reveal_loop_continue [OF assms(1) ob this] have act1: "active s1 author game"
    and b1: "heap s1 ?b = heap s ?b"
    and app: "reveal_loop s author ?r ?b (pre @ (x, y) # post)
               = reveal_loop s1 author ?r ?b ((x, y) # post)"
    by simp_all
  from reveal_one_step [OF act1 p] obtain out g' where
    lost: "out = Lost \<longleftrightarrow> cell_at (heap s1 ?b) (x, y) = Bomb"
    and run: "reveal_one s1 author ?r ?b x y =
       Inr (out,
            if out = Continue then s1\<lparr>heap := (heap s1)(?r := g')\<rparr>
            else s1\<lparr>heap := (heap s1)(?r := g'),
                    games := (games s1)(author \<mapsto> game\<lparr>revealed_ref := ?b\<rparr>)\<rparr>)"
    by blast
  let ?s2 = "if out = Continue then s1\<lparr>heap := (heap s1)(?r := g')\<rparr>
            else s1\<lparr>heap := (heap s1)(?r := g'),
                    games := (games s1)(author \<mapsto> game\<lparr>revealed_ref := ?b\<rparr>)\<rparr>"
  have "reveal_command s author (pre @ (x, y) # post) =
          Inr (Outcome (heap s ?b) out, ?s2\<lparr>games := (games ?s2)(author := None)\<rparr>)"
    if "out \<noteq> Continue"
    using that game ne b1 by (simp add: reveal_command_def app run update_boards_def)
  with lost b1 ne show ?thesis
    by (intro exI [of _ out] exI [of _ ?s2]) (simp add: run)
qed

theorem reveal_command_stops_at_first_end_witness:
  "active mined_game 7 \<lparr>board_ref = 0, revealed_ref = 1, activated_on_server = False\<rparr> \<and>
   on_board (0, 0) \<and> on_board (5, 5) \<and>
   reveal_command mined_game 7 [] = Inr (Outcome (heap mined_game 1) Continue, mined_game) \<and>
   cell_at (heap mined_game 0) (0, 0) = Bomb \<and>
   (\<exists>s'. reveal_command mined_game 7 [(0, 0), (5, 5)] =
           Inr (Outcome (heap mined_game 0) Lost, s') \<and> games s' 7 = None)"
proof -
  let ?game = "\<lparr>board_ref = 0, revealed_ref = 1, activated_on_server = False\<rparr>"
  have ob: "on_board (0, 0)" "on_board (5, 5)"
    by (simp_all add: on_board_def)
  then have obs: "\<forall>p \<in> set ([] @ (0, 0) # [(5, 5)]). on_board p"
    by simp
  have pre: "reveal_command mined_game 7 [] = Inr (Outcome (heap mined_game 1) Continue, mined_game)"
    by (simp add: reveal_command_def update_boards_def mined_game_def)
  have bomb: "cell_at (heap mined_game 0) (0, 0) = Bomb"
    by (simp add: mined_game_def cell_at_def)
  from reveal_command_stops_at_first_end [OF active_mined_game obs pre] bomb
  obtain s2 where
    "reveal_command mined_game 7 [(0, 0), (5, 5)] =
       Inr (Outcome (heap mined_game 0) Lost, s2\<lparr>games := (games s2)(7 := None)\<rparr>)"
    "games (s2\<lparr>games := (games s2)(7 := None)\<rparr>) 7 = None"
    by auto
  with active_mined_game ob pre bomb show ?thesis
    by blast
qed

subsection \<open>Flags and the transitions of a cell\<close>

lemma board_okD: "board_ok b \<Longrightarrow> on_board p \<Longrightarrow> is_revealed (cell_at b p)"
  unfolding board_ok_def list_all_iff set_board_cells by blast

lemma cell_at_replicate: "on_board p \<Longrightarrow> cell_at (replicate 10 (replicate 10 c)) p = c"
  using on_board_nat [of "fst p" "snd p"] by (simp add: cell_at_def)

lemma board_ok_replicate: "is_revealed c \<Longrightarrow> board_ok (replicate 10 (replicate 10 c))"
  by (simp add: board_ok_def list_all_iff set_board_cells cell_at_replicate)

lemma flagged_byD:
  "flagged_by cs g g' \<Longrightarrow> on_board q \<Longrightarrow>
     cell_at g' q = cell_at g q \<or> (cell_at g q = Hidden \<and> q \<in> set cs \<and> cell_at g' q = Flag)"
  unfolding flagged_by_def by blast

lemma flag_loop_result:
  "grid10 g \<Longrightarrow> \<forall>p \<in> set cs. on_board p \<Longrightarrow>
     \<exists>g'. flag_loop g cs = Inr g' \<and> grid10 g' \<and> flagged_by cs g g'"
proof (induction cs arbitrary: g)
  case Nil
  then show ?case
    by (simp add: flagged_by_def)
next
  case (Cons c cs)
  obtain x y where c: "c = (x, y)" by (cases c)
  from Cons.prems have g: "grid10 g" and p: "on_board (x, y)" and ob: "\<forall>p \<in> set cs. on_board p"
    by (simp_all add: c)
  have rd: "get_cell g x y = Inr (cell_at g (x, y))"
    using g p by (rule get_cell_on_board)
  show ?case
  proof (cases "cell_at g (x, y) = Hidden")
    case False
    from Cons.IH [OF g ob] obtain g' where
      g': "flag_loop g cs = Inr g'" "grid10 g'" "flagged_by cs g g'"
      by blast
    have "flagged_by (c # cs) g g'"
      unfolding flagged_by_def using flagged_byD [OF g'(3)] by auto
    with False g' rd show ?thesis
      by (simp add: c)
  next
    case True
    let ?g1 = "cell_upd g (x, y) Flag"
    have g1: "grid10 ?g1"
      using g by (rule grid10_cell_upd)
    have at: "cell_at ?g1 q = (if q = (x, y) then Flag else cell_at g q)" if "on_board q" for q
      using g p that by (rule cell_at_cell_upd)
    from Cons.IH [OF g1 ob] obtain g' where
      g': "flag_loop ?g1 cs = Inr g'" "grid10 g'" "flagged_by cs ?g1 g'"
      by blast
    have "flagged_by (c # cs) g g'"
      unfolding flagged_by_def
    proof (intro allI impI)
      fix q assume q: "on_board q"
      from flagged_byD [OF g'(3) q] at [OF q] True
      show "cell_at g' q = cell_at g q \<or>
         (cell_at g q = Hidden \<and> q \<in> set (c # cs) \<and> cell_at g' q = Flag)"
        by (cases "q = (x, y)") (auto simp: c)
    qed
    with True g' rd show ?thesis
      by (simp add: c set_cell_on_board [OF g p])
  qed
qed

lemma flag_command_result:
  assumes "active s author game" "\<forall>p \<in> set cs. on_board p"
  shows "\<exists>g'. grid10 g' \<and> flagged_by cs (heap s (revealed_ref game)) g' \<and>
     flag_command s author cs =
       Inr (Flagged g', s\<lparr>heap := (heap s)(revealed_ref game := g')\<rparr>)"
proof -
  from assms(1) have game: "games s author = Some game" and g: "grid10 (heap s (revealed_ref game))"
    by (simp_all add: active_def)
  from flag_loop_result [OF g assms(2)] obtain g' where
    "flag_loop (heap s (revealed_ref game)) cs = Inr g'" "grid10 g'"
    "flagged_by cs (heap s (revealed_ref game)) g'"
    by blast
  with game show ?thesis
    by (simp add: flag_command_def update_boards_def)
qed

lemma reveal_command_result:
  assumes "active s author game" "\<forall>p \<in> set cs. on_board p"
  shows "\<exists>out g'. grid10 g' \<and>
       revealed_by cs (heap s (revealed_ref game)) (heap s (board_ref game)) g' \<and>
       reveal_command s author cs =
         Inr (Outcome (if out = Continue then g' else heap s (board_ref game)) out,
              if out = Continue then s\<lparr>heap := (heap s)(revealed_ref game := g')\<rparr>
              else s\<lparr>heap := (heap s)(revealed_ref game := g'),
                     games := (games s)(author := None)\<rparr>)"
proof -
  from assms(1) have "games s author = Some game"
    by (simp add: active_def)
  with reveal_loop_result [OF assms] show ?thesis
    by (simp add: reveal_command_def)
qed

lemma active_quiet_game:
  "active quiet_game 7 \<lparr>board_ref = 0, revealed_ref = 1, activated_on_server = False\<rparr>"
  by (simp add: active_def quiet_game_def grid10_replicate)

text \<open>
  Claim C6, as amended: in an active game a flag command leaves a cell as it is or turns a
  hidden cell into a flag, and a reveal command leaves a cell as it is, reveals a hidden
  cell, or reveals a cell that the command names, flagged or not. So a revealed cell is
  never hidden or flagged again, a flag never goes back to hidden, and a flag stays until
  its own cell is named in a reveal.
\<close>

theorem cell_transitions:
  assumes "active s author game" and "\<forall>p \<in> set coordinates. on_board p"
    and "board_ok (heap s (board_ref game))" and "on_board q"
  shows "\<exists>r1 s1 r2 s2.
     flag_command s author coordinates = Inr (r1, s1) \<and>
     reveal_command s author coordinates = Inr (r2, s2) \<and>
     (cell_at (heap s1 (revealed_ref game)) q = cell_at (heap s (revealed_ref game)) q \<or>
      (cell_at (heap s (revealed_ref game)) q = Hidden \<and>
       cell_at (heap s1 (revealed_ref game)) q = Flag)) \<and>
     (cell_at (heap s2 (revealed_ref game)) q = cell_at (heap s (revealed_ref game)) q \<or>
      (cell_at (heap s (revealed_ref game)) q = Hidden \<and>
       is_revealed (cell_at (heap s2 (revealed_ref game)) q)) \<or>
      (q \<in> set coordinates \<and> is_revealed (cell_at (heap s2 (revealed_ref game)) q)))"
proof -
  let ?r = "revealed_ref game" and ?b = "board_ref game"
  from flag_command_result [OF assms(1,2)] obtain g1 where
    f: "flagged_by coordinates (heap s ?r) g1"
    and frun: "flag_command s author coordinates = Inr (Flagged g1, s\<lparr>heap := (heap s)(?r := g1)\<rparr>)"
    by blast
  from reveal_command_result [OF assms(1,2)] obtain out g2 where
    r: "revealed_by coordinates (heap s ?r) (heap s ?b) g2"
    and rrun: "reveal_command s author coordinates =
         Inr (Outcome (if out = Continue then g2 else heap s ?b) out,
              if out = Continue then s\<lparr>heap := (heap s)(?r := g2)\<rparr>
              else s\<lparr>heap := (heap s)(?r := g2), games := (games s)(author := None)\<rparr>)"
    by blast
  have ok: "is_revealed (cell_at (heap s ?b) q)"
    using assms(3,4) by (rule board_okD)
  from flagged_byD [OF f assms(4)] revealed_byD [OF r assms(4)] ok show ?thesis
    unfolding frun rrun by (cases "out = Continue") auto
qed

theorem cell_transitions_witness:
  "active quiet_game 7 \<lparr>board_ref = 0, revealed_ref = 1, activated_on_server = False\<rparr> \<and>
   on_board (0, 0) \<and> board_ok (heap quiet_game 0) \<and>
   cell_at (heap quiet_game 1) (0, 0) = Hidden \<and>
   (\<exists>r1 s1 r2 s2.
      flag_command quiet_game 7 [(0, 0)] = Inr (r1, s1) \<and>
      reveal_command quiet_game 7 [(0, 0)] = Inr (r2, s2) \<and>
      (cell_at (heap s1 1) (0, 0) = Hidden \<or> cell_at (heap s1 1) (0, 0) = Flag) \<and>
      cell_at (heap s2 1) (0, 0) \<noteq> Flag)"
proof -
  have ob: "on_board (0, 0)" "\<forall>p \<in> set [(0, 0)]. on_board p"
    by (simp_all add: on_board_def)
  have ok: "board_ok (heap quiet_game 0)"
    by (simp add: quiet_game_def board_ok_replicate is_revealed_def)
  have h: "cell_at (heap quiet_game 1) (0, 0) = Hidden"
    by (simp add: quiet_game_def cell_at_def)
  from cell_transitions [OF active_quiet_game ob(2) _ ob(1)] ok h
  obtain r1 s1 r2 s2 where
    "flag_command quiet_game 7 [(0, 0)] = Inr (r1, s1)"
    "reveal_command quiet_game 7 [(0, 0)] = Inr (r2, s2)"
    "cell_at (heap s1 1) (0, 0) = Hidden \<or> cell_at (heap s1 1) (0, 0) = Flag"
    "cell_at (heap s2 1) (0, 0) = Hidden \<or> is_revealed (cell_at (heap s2 1) (0, 0))"
    by auto
  with active_quiet_game ob(1) ok h show ?thesis
    by (auto simp: is_revealed_def)
qed

text \<open>
  The claim as stated fails: in the game started with a bomb at \<open>(1, 0)\<close> only, the cell
  \<open>(0, 0)\<close> is flagged and then revealed; it goes from flagged to revealed (it shows 1)
  and the game goes on.
\<close>

theorem flag_overwritten_counterexample:
  "(case start_command no_games 7 False (1 / 5) (\<lambda>k. if k = 1 then 0 else 1) of
      Inl e \<Rightarrow> False
    | Inr (r0, s0) \<Rightarrow>
        (case flag_command s0 7 [(0, 0)] of
           Inl e \<Rightarrow> False
         | Inr (r1, s1) \<Rightarrow>
             (case games s1 7 of
                None \<Rightarrow> False
              | Some game \<Rightarrow>
                  cell_at (heap s1 (revealed_ref game)) (0, 0) = Flag \<and>
                  (case reveal_command s1 7 [(0, 0)] of
                     Inl e \<Rightarrow> False
                   | Inr (r2, s2) \<Rightarrow>
                       games s2 7 \<noteq> None \<and>
                       cell_at (heap s2 (revealed_ref game)) (0, 0) = Num 1))))"
  by code_simp

subsection \<open>The store: boards are never written to\<close>

lemma store_okD:
  assumes "store_ok s" "games s a = Some g"
  shows "active s a g" "board_ref g < fresh s" "revealed_ref g < fresh s"
    and "\<And>a' g'. games s a' = Some g' \<Longrightarrow> a \<noteq> a' \<Longrightarrow>
           revealed_ref g' \<noteq> board_ref g \<and> revealed_ref g' \<noteq> revealed_ref g"
  using assms unfolding store_ok_def by blast+

lemma store_ok_no_games: "store_ok no_games"
  by (simp add: store_ok_def no_games_def)

lemma board_settled:
  assumes "store_ok s" "games s a = Some g"
  shows "settled s (board_ref g)"
proof -
  have "revealed_ref g' \<noteq> board_ref g" if p: "games s p = Some g'" for p g'
  proof (cases "p = a")
    case True
    with p assms(2) have "g' = g" by simp
    with store_okD(1) [OF assms] show ?thesis
      by (simp add: active_def)
  next
    case False
    with store_okD(4) [OF assms p] show ?thesis
      by blast
  qed
  with store_okD(2) [OF assms] show ?thesis
    unfolding settled_def by blast
qed

lemma store_okI:
  assumes "\<And>a g. games s a = Some g \<Longrightarrow>
             active s a g \<and> board_ref g < fresh s \<and> revealed_ref g < fresh s"
    and "\<And>a a' g g'. games s a = Some g \<Longrightarrow> games s a' = Some g' \<Longrightarrow> a \<noteq> a' \<Longrightarrow>
             revealed_ref g' \<noteq> board_ref g \<and> revealed_ref g' \<noteq> revealed_ref g"
  shows "store_ok s"
  unfolding store_ok_def using assms by blast

text \<open>Writing a 10 by 10 grid to the revealed list of one game keeps the invariant.\<close>

lemma store_ok_heap_update:
  assumes ok: "store_ok s" and game: "games s author = Some game" and g': "grid10 g'"
  shows "store_ok (s\<lparr>heap := (heap s)(revealed_ref game := g')\<rparr>)"
proof (rule store_okI)
  let ?s' = "s\<lparr>heap := (heap s)(revealed_ref game := g')\<rparr>"
  fix a g assume a: "games ?s' a = Some g"
  then have ga: "games s a = Some g" by simp
  note act = store_okD(1) [OF ok ga]
  have "revealed_ref game \<noteq> board_ref g"
  proof (cases "a = author")
    case True
    with ga game act show ?thesis by (simp add: active_def)
  next
    case False
    with store_okD(4) [OF ok ga game] show ?thesis by blast
  qed
  with act g' have "active ?s' a g"
    by (simp add: active_def)
  then show "active ?s' a g \<and> board_ref g < fresh ?s' \<and> revealed_ref g < fresh ?s'"
    using store_okD(2,3) [OF ok ga] by simp
next
  let ?s' = "s\<lparr>heap := (heap s)(revealed_ref game := g')\<rparr>"
  fix a a' g g'' assume "games ?s' a = Some g" "games ?s' a' = Some g''" "a \<noteq> a'"
  then show "revealed_ref g'' \<noteq> board_ref g \<and> revealed_ref g'' \<noteq> revealed_ref g"
    using store_okD(4) [OF ok, of a g a' g''] by simp
qed

text \<open>Removing a record keeps the invariant.\<close>

lemma store_ok_remove:
  assumes ok: "store_ok s"
  shows "store_ok (s\<lparr>games := (games s)(author := None)\<rparr>)"
proof (rule store_okI)
  let ?s' = "s\<lparr>games := (games s)(author := None)\<rparr>"
  fix a g assume a: "games ?s' a = Some g"
  then have ga: "games s a = Some g" and ne: "a \<noteq> author"
    by (auto split: if_splits)
  from store_okD(1) [OF ok ga] ne have "active ?s' a g"
    by (simp add: active_def)
  then show "active ?s' a g \<and> board_ref g < fresh ?s' \<and> revealed_ref g < fresh ?s'"
    using store_okD(2,3) [OF ok ga] by simp
next
  let ?s' = "s\<lparr>games := (games s)(author := None)\<rparr>"
  fix a a' g g'' assume "games ?s' a = Some g" "games ?s' a' = Some g''" "a \<noteq> a'"
  then show "revealed_ref g'' \<noteq> board_ref g \<and> revealed_ref g'' \<noteq> revealed_ref g"
    using store_okD(4) [OF ok, of a g a' g''] by (auto split: if_splits)
qed

lemma settled_heap_update:
  assumes "settled s a" "games s author = Some game"
  shows "heap (s\<lparr>heap := (heap s)(revealed_ref game := g')\<rparr>) a = heap s a"
    and "settled (s\<lparr>heap := (heap s)(revealed_ref game := g')\<rparr>) a"
  using assms unfolding settled_def by auto

lemma settled_remove:
  assumes "settled s a"
  shows "settled (s\<lparr>games := (games s)(author := None)\<rparr>) a"
  using assms unfolding settled_def by auto

lemma generate_board_grid10: "\<exists>board. generate_board bomb_chance random = Inr board \<and> grid10 board"
  using generate_board_numbered numbered_grid10 by blast

text \<open>A new game: two new lists, the board and a grid of hidden cells.\<close>

lemma start_command_new:
  assumes ok: "store_ok s" and none: "games s author = None"
  shows "\<exists>board. grid10 board \<and>
     start_command s author guild bomb_chance random =
       Inr (Started,
            s\<lparr>games := (games s)(author \<mapsto>
                 \<lparr>board_ref = fresh s, revealed_ref = fresh s + 1, activated_on_server = guild\<rparr>),
              heap := (heap s)(fresh s := board, fresh s + 1 := replicate 10 (replicate 10 Hidden)),
              fresh := fresh s + 2\<rparr>)"
proof -
  from generate_board_grid10 obtain board where
    gen: "generate_board bomb_chance random = Inr board" and b: "grid10 board"
    by blast
  have "start_command s author guild bomb_chance random =
       Inr (Started,
            s\<lparr>games := (games s)(author \<mapsto>
                 \<lparr>board_ref = fresh s, revealed_ref = fresh s + 1, activated_on_server = guild\<rparr>),
              heap := (heap s)(fresh s := board, fresh s + 1 := replicate 10 (replicate 10 Hidden)),
              fresh := fresh s + 2\<rparr>)"
    using none gen by (simp add: start_command_def Let_def)
  with b show ?thesis
    by blast
qed

lemma store_ok_start:
  assumes ok: "store_ok s" and none: "games s author = None" and b: "grid10 board"
  shows "store_ok
     (s\<lparr>games := (games s)(author \<mapsto>
          \<lparr>board_ref = fresh s, revealed_ref = fresh s + 1, activated_on_server = guild\<rparr>),
        heap := (heap s)(fresh s := board, fresh s + 1 := replicate 10 (replicate 10 Hidden)),
        fresh := fresh s + 2\<rparr>)" (is "store_ok ?s'")
proof (rule store_okI)
  fix a g assume a: "games ?s' a = Some g"
  show "active ?s' a g \<and> board_ref g < fresh ?s' \<and> revealed_ref g < fresh ?s'"
  proof (cases "a = author")
    case True
    with a b show ?thesis
      by (auto simp: active_def grid10_replicate)
  next
    case False
    with a have ga: "games s a = Some g" by simp
    from store_okD(1-3) [OF ok ga] False show ?thesis
      by (simp add: active_def)
  qed
next
  fix a a' g g' assume "games ?s' a = Some g" "games ?s' a' = Some g'" "a \<noteq> a'"
  then show "revealed_ref g' \<noteq> board_ref g \<and> revealed_ref g' \<noteq> revealed_ref g"
    using store_okD(2,3) [OF ok, of a g] store_okD(2,3) [OF ok, of a' g']
      store_okD(4) [OF ok, of a g a' g']
    by (auto split: if_splits)
qed

lemma end_command_result:
  assumes "games s author = Some game"
  shows "end_command s author =
     Inr (Ended (heap s (board_ref game)), s\<lparr>games := (games s)(author := None)\<rparr>)"
  using assms by (simp add: end_command_def disclose_def update_boards_def)

lemma command_KeyError:
  assumes "games s author = None"
  shows "flag_command s author cs = Inl KeyError" "reveal_command s author cs = Inl KeyError"
    "end_command s author = Inl KeyError"
  using assms by (simp_all add: flag_command_def reveal_command_def end_command_def disclose_def)

text \<open>
  One command on a store that satisfies the invariant: it raises \<open>KeyError\<close> or returns,
  the invariant holds again, and a settled list is as it was and settled again.
\<close>

lemma handle_keeps:
  assumes ok: "store_ok s" and c: "converted c"
  shows "handle s c = Inl KeyError \<or>
     (\<exists>r s'. handle s c = Inr (r, s') \<and> store_ok s' \<and>
        (\<forall>a. settled s a \<longrightarrow> heap s' a = heap s a \<and> settled s' a))"
proof (cases c)
  case (Start author guild bomb_chance random)
  show ?thesis
  proof (cases "games s author")
    case (Some game)
    with ok show ?thesis
      by (simp add: Start start_command_def)
  next
    case None
    from start_command_new [OF ok None] obtain board where
      b: "grid10 board"
      and run: "start_command s author guild bomb_chance random =
       Inr (Started,
            s\<lparr>games := (games s)(author \<mapsto>
                 \<lparr>board_ref = fresh s, revealed_ref = fresh s + 1, activated_on_server = guild\<rparr>),
              heap := (heap s)(fresh s := board, fresh s + 1 := replicate 10 (replicate 10 Hidden)),
              fresh := fresh s + 2\<rparr>)"
      by blast
    have "\<forall>a. settled s a \<longrightarrow>
       heap (s\<lparr>games := (games s)(author \<mapsto>
                 \<lparr>board_ref = fresh s, revealed_ref = fresh s + 1, activated_on_server = guild\<rparr>),
              heap := (heap s)(fresh s := board, fresh s + 1 := replicate 10 (replicate 10 Hidden)),
              fresh := fresh s + 2\<rparr>) a = heap s a \<and>
       settled (s\<lparr>games := (games s)(author \<mapsto>
                 \<lparr>board_ref = fresh s, revealed_ref = fresh s + 1, activated_on_server = guild\<rparr>),
              heap := (heap s)(fresh s := board, fresh s + 1 := replicate 10 (replicate 10 Hidden)),
              fresh := fresh s + 2\<rparr>) a"
      unfolding settled_def by auto
    with store_ok_start [OF ok None b, of guild] show ?thesis
      unfolding Start handle.simps run by blast
  qed
next
  case (Flag_cells author cs)
  show ?thesis
  proof (cases "games s author")
    case None
    then show ?thesis
      by (simp add: Flag_cells command_KeyError)
  next
    case (Some game)
    from c have ob: "\<forall>p \<in> set cs. on_board p"
      by (simp add: Flag_cells list_all_iff)
    from flag_command_result [OF store_okD(1) [OF ok Some] ob] obtain g' where
      g': "grid10 g'"
      and run: "flag_command s author cs =
         Inr (Flagged g', s\<lparr>heap := (heap s)(revealed_ref game := g')\<rparr>)"
      by blast
    from store_ok_heap_update [OF ok Some g'] settled_heap_update [OF _ Some, of _ g']
    show ?thesis
      unfolding Flag_cells handle.simps run by blast
  qed
next
  case (Reveal_cells author cs)
  show ?thesis
  proof (cases "games s author")
    case None
    then show ?thesis
      by (simp add: Reveal_cells command_KeyError)
  next
    case (Some game)
    from c have ob: "\<forall>p \<in> set cs. on_board p"
      by (simp add: Reveal_cells list_all_iff)
    from reveal_command_result [OF store_okD(1) [OF ok Some] ob] obtain out g' where
      g': "grid10 g'"
      and run: "reveal_command s author cs =
         Inr (Outcome (if out = Continue then g' else heap s (board_ref game)) out,
              if out = Continue then s\<lparr>heap := (heap s)(revealed_ref game := g')\<rparr>
              else s\<lparr>heap := (heap s)(revealed_ref game := g'),
                     games := (games s)(author := None)\<rparr>)"
      by blast
    let ?s1 = "s\<lparr>heap := (heap s)(revealed_ref game := g')\<rparr>"
    have ok1: "store_ok ?s1"
      using ok Some g' by (rule store_ok_heap_update)
    have s1: "heap ?s1 a = heap s a \<and> settled ?s1 a" if "settled s a" for a
      using settled_heap_update [OF that Some, of g'] by simp
    show ?thesis
    proof (cases "out = Continue")
      case True
      with ok1 s1 show ?thesis
        unfolding Reveal_cells handle.simps run by auto
    next
      case False
      have "store_ok (?s1\<lparr>games := (games ?s1)(author := None)\<rparr>)"
        using ok1 by (rule store_ok_remove)
      moreover have "heap (?s1\<lparr>games := (games ?s1)(author := None)\<rparr>) a = heap s a \<and>
          settled (?s1\<lparr>games := (games ?s1)(author := None)\<rparr>) a" if "settled s a" for a
        using s1 [OF that] settled_remove [of ?s1 a author] by simp
      ultimately show ?thesis
        using False unfolding Reveal_cells handle.simps run by auto
    qed
  qed
next
  case (End_game author)
  show ?thesis
  proof (cases "games s author")
    case None
    then show ?thesis
      by (simp add: End_game command_KeyError)
  next
    case (Some game)
    from store_ok_remove [OF ok, of author] settled_remove [of s _ author]
    show ?thesis
      unfolding End_game handle.simps end_command_result [OF Some] by auto
  qed
qed

lemma run_keeps:
  "store_ok s \<Longrightarrow> list_all converted cs \<Longrightarrow>
     store_ok (run s cs) \<and> (\<forall>a. settled s a \<longrightarrow> heap (run s cs) a = heap s a)"
proof (induction cs arbitrary: s)
  case Nil
  then show ?case by simp
next
  case (Cons c cs)
  then have ok: "store_ok s" and c: "converted c" and cs: "list_all converted cs"
    by simp_all
  from handle_keeps [OF ok c] show ?case
  proof
    assume "handle s c = Inl KeyError"
    with Cons.IH [OF ok cs] show ?thesis
      by simp
  next
    assume "\<exists>r s'. handle s c = Inr (r, s') \<and> store_ok s' \<and>
        (\<forall>a. settled s a \<longrightarrow> heap s' a = heap s a \<and> settled s' a)"
    then obtain r s' where run: "handle s c = Inr (r, s')" and ok': "store_ok s'"
      and keep: "\<And>a. settled s a \<Longrightarrow> heap s' a = heap s a \<and> settled s' a"
      by blast
    from Cons.IH [OF ok' cs] keep show ?thesis
      by (simp add: run)
  qed
qed

lemma store_ok_run: "list_all converted history \<Longrightarrow> store_ok (run no_games history)"
  using run_keeps [OF store_ok_no_games] by blast

text \<open>
  Claim C8: in every state the bot reaches from the empty store, the board of a running
  game is a list that no later command changes: flags, reveals with their flood fill, the
  disclosure at a win, a loss or an end (where the record's \<open>revealed\<close> names the board
  list just before the record is removed), and the commands of other players all leave
  its contents as \<open>generate_board\<close> made them.
\<close>

theorem board_never_mutated:
  assumes "list_all converted history" and "games (run no_games history) author = Some game"
    and "list_all converted cs"
  shows "heap (run (run no_games history) cs) (board_ref game) =
         heap (run no_games history) (board_ref game)"
proof -
  have ok: "store_ok (run no_games history)"
    using assms(1) by (rule store_ok_run)
  then have "settled (run no_games history) (board_ref game)"
    using assms(2) by (rule board_settled)
  with run_keeps [OF ok assms(3)] show ?thesis
    by blast
qed

lemma generate_board_no_bombs:
  "generate_board 0 (\<lambda>k. 1) = Inr (replicate 10 (replicate 10 (Num 0)))"
  by code_simp

theorem board_never_mutated_witness:
  "list_all converted [Start 7 False 0 (\<lambda>k. 1)] \<and>
   games (run no_games [Start 7 False 0 (\<lambda>k. 1)]) 7 =
     Some \<lparr>board_ref = 0, revealed_ref = 1, activated_on_server = False\<rparr> \<and>
   list_all converted [Flag_cells 7 [(1, 1)], Reveal_cells 7 [(0, 0)], End_game 7] \<and>
   heap (run (run no_games [Start 7 False 0 (\<lambda>k. 1)])
           [Flag_cells 7 [(1, 1)], Reveal_cells 7 [(0, 0)], End_game 7]) 0 =
   heap (run no_games [Start 7 False 0 (\<lambda>k. 1)]) 0"
proof -
  have h: "list_all converted [Start 7 False 0 (\<lambda>k. 1)]"
    by simp
  have g: "games (run no_games [Start 7 False 0 (\<lambda>k. 1)]) 7 =
     Some \<lparr>board_ref = 0, revealed_ref = 1, activated_on_server = False\<rparr>"
    by (simp add: start_command_def no_games_def generate_board_no_bombs)
  have c: "list_all converted [Flag_cells 7 [(1, 1)], Reveal_cells 7 [(0, 0)], End_game 7]"
    by (simp add: on_board_def)
  from board_never_mutated [OF h g c] h g c show ?thesis
    by simp
qed

text \<open>
  Claim C9: for a player who has a record, \<open>start\<close> answers that a game is already running
  and returns the store as it was: the record is still there, with the same board and the
  same revealed grid.
\<close>

theorem start_while_active:
  assumes "games s author = Some game"
  shows "\<exists>s'. start_command s author guild bomb_chance random = Inr (GameAlreadyActive, s') \<and>
     s' = s \<and> games s' author = Some game \<and>
     heap s' (board_ref game) = heap s (board_ref game) \<and>
     heap s' (revealed_ref game) = heap s (revealed_ref game)"
  using assms by (simp add: start_command_def)

theorem start_while_active_witness:
  "games quiet_game 7 = Some \<lparr>board_ref = 0, revealed_ref = 1, activated_on_server = False\<rparr> \<and>
   start_command quiet_game 7 True (1 / 5) (\<lambda>k. 0) = Inr (GameAlreadyActive, quiet_game)"
  using start_while_active [OF quiet_game_facts(1), of True "1 / 5" "\<lambda>k. 0"] quiet_game_facts(1)
  by simp

(*MORE_LEMMAS*)

end
